theory Spec2Isabelle
  imports Main "HOL-Library.Word"
begin

unbundle bit_operations_syntax

section \<open>Python values, exceptions and built-ins used by the driver\<close>

type_synonym byte = "8 word"

text \<open>
  The driver raises \<open>ValueError\<close> with three fixed messages and one formatted message;
  the Python built-ins it calls raise the remaining exceptions (CPython semantics):
  \<open>bytearray(n)\<close> with negative \<open>n\<close> and \<open>bytearray(iterable)\<close> / \<open>bytes(iterable)\<close>
  with an element outside \<open>range(256)\<close> raise \<open>ValueError\<close>, \<open>int.to_bytes(1, "big")\<close>
  of a value outside \<open>0..255\<close> raises \<open>OverflowError\<close>, indexing an empty
  \<open>bytearray\<close> raises \<open>IndexError\<close>, \<open>len\<close> of an \<open>int\<close> raises \<open>TypeError\<close>.
\<close>

datatype value_error =
    StartBeyondLimit
  | StopBeyondLimit
  | BeyondMemoryLimit int int
  | ItemNotIntOrSlice
  | NegativeCount
  | ByteNotInRange

datatype error = ValueError value_error | OverflowError | IndexError | TypeError

definition EEPROM_LENGTH :: int where "EEPROM_LENGTH = 256"
definition PAGE_SIZE :: int where "PAGE_SIZE = 16"
definition EUI_LOCATION :: "byte list" where "EUI_LOCATION = [0x9A]"
definition MAC_ADDR_LENGTH :: nat where "MAC_ADDR_LENGTH = 6"
definition SERIAL_NUMBER_LOCATION :: "byte list" where "SERIAL_NUMBER_LOCATION = [0x80]"
definition SERIAL_NUMBER_LENGTH :: nat where "SERIAL_NUMBER_LENGTH = 16"

definition to_bytes1 :: "int \<Rightarrow> error + byte list" where
  \<comment> \<open>\<open>x.to_bytes(1, "big")\<close>\<close>
  "to_bytes1 x = (if 0 \<le> x \<and> x < 256 then Inr [word_of_int x] else Inl OverflowError)"

definition from_bytes_big :: "byte list \<Rightarrow> int" where
  \<comment> \<open>\<open>int.from_bytes(bs, "big")\<close>\<close>
  "from_bytes_big bs = foldl (\<lambda>acc b. acc * 256 + uint b) 0 bs"

definition py_bytes :: "int list \<Rightarrow> error + byte list" where
  \<comment> \<open>\<open>bytes(xs)\<close> and \<open>bytearray(xs)\<close> for a list of integers\<close>
  "py_bytes xs = (if list_all (\<lambda>x. 0 \<le> x \<and> x < 256) xs then Inr (map word_of_int xs)
                  else Inl (ValueError ByteNotInRange))"

definition slice_index :: "nat \<Rightarrow> int \<Rightarrow> nat" where
  \<comment> \<open>a slice bound of a sequence of length \<open>n\<close>: negative bounds count from the end,
      and every bound is clipped to \<open>0..n\<close>\<close>
  "slice_index n i = (if i < 0 then nat (max 0 (int n + i)) else min n (nat i))"

definition py_slice :: "'a list \<Rightarrow> int option \<Rightarrow> int option \<Rightarrow> 'a list" where
  \<comment> \<open>\<open>xs[i:j]\<close>, \<open>xs[i:]\<close>, \<open>xs[:j]\<close>\<close>
  "py_slice xs i j =
     (let lo = (case i of None \<Rightarrow> 0 | Some a \<Rightarrow> slice_index (length xs) a);
          hi = (case j of None \<Rightarrow> length xs | Some b \<Rightarrow> slice_index (length xs) b)
      in take (hi - lo) (drop lo xs))"

section \<open>The bus: a transport that records every transaction\<close>

text \<open>
  The driver talks to two \<open>I2CDevice\<close> objects on one bus. The transport is not part
  of the driver; it is modelled as a recording mock whose devices are byte-addressed
  memories with a one-byte address pointer. A write transaction sends the pointer and
  then data bytes; the device stores them with the pointer rolling over inside the
  16-byte page, as the part's data sheet describes. A write-then-read transaction sends
  the pointer and reads bytes sequentially. \<open>time.sleep\<close> is recorded as an event as well.
\<close>

datatype event =
    Probe int
  | WriteThenReadinto int "byte list" nat
  | Write int "byte list"
  | Sleep

record bus =
  cells :: "int \<Rightarrow> nat \<Rightarrow> byte"
  log :: "event list"

fun store :: "(nat \<Rightarrow> byte) \<Rightarrow> nat \<Rightarrow> byte list \<Rightarrow> (nat \<Rightarrow> byte)" where
  "store m a [] = m"
| "store m a (x # xs) = store (m(a := x)) ((a div 16) * 16 + (a + 1) mod 16) xs"

definition pointer :: "byte list \<Rightarrow> nat" where
  "pointer out = (case out of [] \<Rightarrow> 0 | _ \<Rightarrow> unat (last out))"

definition I2CDevice :: "int \<Rightarrow> bool \<Rightarrow> bus \<Rightarrow> int \<times> bus" where
  \<comment> \<open>\<open>I2CDevice(i2c, device_address, probe)\<close>\<close>
  "I2CDevice device_address probe b =
     (device_address, if probe then b\<lparr>log := log b @ [Probe device_address]\<rparr> else b)"

definition write_then_readinto :: "int \<Rightarrow> byte list \<Rightarrow> nat \<Rightarrow> bus \<Rightarrow> byte list \<times> bus" where
  \<comment> \<open>\<open>device.write_then_readinto(out, buf)\<close> with \<open>len(buf) = n\<close>; the result is the
      content of \<open>buf\<close> afterwards\<close>
  "write_then_readinto dev out n b =
     (map (cells b dev) [pointer out ..< pointer out + n],
      b\<lparr>log := log b @ [WriteThenReadinto dev out n]\<rparr>)"

definition i2c_write :: "int \<Rightarrow> byte list \<Rightarrow> bus \<Rightarrow> bus" where
  \<comment> \<open>\<open>device.write(msg)\<close>\<close>
  "i2c_write dev msg b =
     (case msg of
        [] \<Rightarrow> b\<lparr>log := log b @ [Write dev msg]\<rparr>
      | a # payload \<Rightarrow>
          b\<lparr>cells := (cells b)(dev := store (cells b dev) (unat a) payload),
            log := log b @ [Write dev msg]\<rparr>)"

definition sleep :: "bus \<Rightarrow> bus" where
  \<comment> \<open>\<open>time.sleep(_WRITE_TIME)\<close>\<close>
  "sleep b = b\<lparr>log := log b @ [Sleep]\<rparr>"

section \<open>The driver\<close>

record at24mac =
  eeprom_device :: int
  eui_device :: int
  mac :: "byte list"
  serial_number :: int

datatype index = IntIndex int | SliceIndex "int option" "int option" | OtherIndex

datatype rvalue = RInt int | RBytes "byte list"

datatype payload = PInt int | PBytes "byte list" | PList "int list"

definition read_serial_number :: "at24mac \<Rightarrow> bus \<Rightarrow> int \<times> bus" where
  "read_serial_number self b =
     (let (serial, b') = write_then_readinto (eui_device self) SERIAL_NUMBER_LOCATION
                           SERIAL_NUMBER_LENGTH b
      in (from_bytes_big serial, b'))"

definition read_mac_address :: "at24mac \<Rightarrow> bus \<Rightarrow> byte list \<times> bus" where
  "read_mac_address self b =
     write_then_readinto (eui_device self) EUI_LOCATION MAC_ADDR_LENGTH b"

definition init :: "int \<Rightarrow> bus \<Rightarrow> at24mac \<times> bus" where
  \<comment> \<open>\<open>__init__(self, i2c, address_pins)\<close>\<close>
  "init address_pins b =
     (let (d1, b1) = I2CDevice (0x50 OR address_pins) True b;
          (d2, b2) = I2CDevice (0x58 OR address_pins) True b1;
          self = \<lparr>eeprom_device = d1, eui_device = d2, mac = [], serial_number = 0\<rparr>;
          (m, b3) = read_mac_address self b2;
          self = self\<lparr>mac := m\<rparr>;
          (s, b4) = read_serial_number self b3
      in (self\<lparr>serial_number := s\<rparr>, b4))"

definition priv_read :: "at24mac \<Rightarrow> int \<Rightarrow> int \<Rightarrow> bus \<Rightarrow> (error + rvalue) \<times> bus" where
  \<comment> \<open>\<open>_read(self, data_address, length)\<close>\<close>
  "priv_read self data_address len b =
     (if len + data_address > EEPROM_LENGTH
      then (Inl (ValueError (BeyondMemoryLimit data_address len)), b)
      else if len < 0 then (Inl (ValueError NegativeCount), b)
      else case to_bytes1 data_address of
             Inl e \<Rightarrow> (Inl e, b)
           | Inr address_bytes \<Rightarrow>
               (let (data_bytes, b') =
                      write_then_readinto (eeprom_device self) address_bytes (nat len) b
                in if len > 1 then (Inr (RBytes data_bytes), b')
                   else case data_bytes of
                          [] \<Rightarrow> (Inl IndexError, b')
                        | x # _ \<Rightarrow> (Inr (RInt (uint x)), b')))"

definition does_data_match :: "at24mac \<Rightarrow> int \<Rightarrow> byte list \<Rightarrow> bus \<Rightarrow> (error + bool) \<times> bus" where
  \<comment> \<open>\<open>_does_data_match(self, data_address, data)\<close>\<close>
  "does_data_match self data_address data b =
     (case priv_read self data_address (int (length data)) b of
        (Inl e, b') \<Rightarrow> (Inl e, b')
      | (Inr current_values, b') \<Rightarrow>
          if length data = 1
          then (case current_values of
                  RInt v \<Rightarrow> (case py_bytes [v] of
                               Inl e \<Rightarrow> (Inl e, b')
                             | Inr bs \<Rightarrow> (Inr (bs = data), b'))
                | RBytes _ \<Rightarrow> (Inl TypeError, b'))
          else (case current_values of
                  RInt _ \<Rightarrow> (Inr False, b')
                | RBytes bs \<Rightarrow> (Inr (bs = data), b')))"

definition priv_write_page :: "at24mac \<Rightarrow> int \<Rightarrow> byte list \<Rightarrow> bus \<Rightarrow> (error + unit) \<times> bus" where
  \<comment> \<open>\<open>_write_page(self, data_address, data)\<close>\<close>
  "priv_write_page self data_address data b =
     (case does_data_match self data_address data b of
        (Inl e, b') \<Rightarrow> (Inl e, b')
      | (Inr matches, b') \<Rightarrow>
          if \<not> matches
          then (case to_bytes1 data_address of
                  Inl e \<Rightarrow> (Inl e, b')
                | Inr address_bytes \<Rightarrow>
                    (Inr (), sleep (i2c_write (eeprom_device self) (address_bytes @ data) b')))
          else (Inr (), b'))"

definition coerce :: "payload \<Rightarrow> error + byte list" where
  \<comment> \<open>the first statement of \<open>_write\<close>: an integer in \<open>0..255\<close> becomes one byte, any
      other integer stays an integer and \<open>len(data)\<close> raises \<open>TypeError\<close>; a list makes the
      comparison raise \<open>TypeError\<close>, which is caught, and becomes \<open>bytearray(data)\<close>\<close>
  "coerce data =
     (case data of
        PBytes bs \<Rightarrow> Inr bs
      | PInt v \<Rightarrow> if 0 \<le> v \<and> v \<le> 255 then to_bytes1 v else Inl TypeError
      | PList xs \<Rightarrow> py_bytes xs)"

function write_loop ::
  "(int \<Rightarrow> byte list \<Rightarrow> 's \<Rightarrow> (error + unit) \<times> 's) \<Rightarrow> int \<Rightarrow> int \<Rightarrow> int \<Rightarrow> byte list \<Rightarrow> 's
     \<Rightarrow> (error + int) \<times> 's" where
  \<comment> \<open>\<open>for i in range(i, stop, _PAGE_SIZE)\<close>; the result is \<open>current_address\<close>\<close>
  "write_loop write_page i stop current_address data s =
     (if i < stop
      then (case write_page current_address (py_slice data (Some i) (Some (i + PAGE_SIZE))) s of
              (Inl e, s') \<Rightarrow> (Inl e, s')
            | (Inr _, s') \<Rightarrow>
                write_loop write_page (i + PAGE_SIZE) stop (current_address + PAGE_SIZE) data s')
      else (Inr current_address, s))"
  by pat_completeness auto
termination
  by (relation "measure (\<lambda>(wp, i, stop, cur, data, s). nat (stop - i))")
     (auto simp: PAGE_SIZE_def)

definition write_body ::
  "(int \<Rightarrow> byte list \<Rightarrow> 's \<Rightarrow> (error + unit) \<times> 's) \<Rightarrow> int \<Rightarrow> payload \<Rightarrow> 's
     \<Rightarrow> (error + unit) \<times> 's" where
  \<comment> \<open>the body of \<open>_write\<close>, with the method it calls for each page as a parameter;
      \<open>int(len(data) / _PAGE_SIZE)\<close> is the integer quotient (the division of a length
      below \<open>2^53\<close> by 16 is exact in floating point)\<close>
  "write_body write_page data_address data0 s =
     (case coerce data0 of
        Inl e \<Rightarrow> (Inl e, s)
      | Inr data \<Rightarrow>
          if int (length data) + data_address > EEPROM_LENGTH
          then (Inl (ValueError (BeyondMemoryLimit data_address (int (length data)))), s)
          else
            (let (offset, total_pages, remaining_bytes) =
                   (if length data > 1
                    then (let total_pages = int (length data) div PAGE_SIZE;
                              remaining_bytes = int (length data) mod PAGE_SIZE;
                              offset = PAGE_SIZE - (data_address mod PAGE_SIZE);
                              offset = (if offset = 16 then 0 else offset);
                              remaining_bytes = remaining_bytes - offset
                          in (offset, total_pages, remaining_bytes))
                    else (0, 0, 1));
                 current_address = data_address
             in case (if offset > 0
                      then (case write_page data_address (py_slice data (Some 0) (Some offset)) s of
                              (Inl e, s') \<Rightarrow> (Inl e, s')
                            | (Inr _, s') \<Rightarrow> (Inr (current_address + offset), s'))
                      else (Inr current_address, s)) of
                  (Inl e, s1) \<Rightarrow> (Inl e, s1)
                | (Inr current_address, s1) \<Rightarrow>
                    (case (if total_pages > 0
                           then write_loop write_page offset (total_pages * PAGE_SIZE)
                                  current_address data s1
                           else (Inr current_address, s1)) of
                       (Inl e, s2) \<Rightarrow> (Inl e, s2)
                     | (Inr current_address, s2) \<Rightarrow>
                         if remaining_bytes > 0
                         then write_page current_address
                                (py_slice data (Some (offset + total_pages * PAGE_SIZE)) None) s2
                         else (Inr (), s2))))"

definition priv_write :: "at24mac \<Rightarrow> int \<Rightarrow> payload \<Rightarrow> bus \<Rightarrow> (error + unit) \<times> bus" where
  \<comment> \<open>\<open>_write(self, data_address, data)\<close>\<close>
  "priv_write self = write_body (priv_write_page self)"

definition record_page :: "int \<Rightarrow> byte list \<Rightarrow> (int \<times> byte list) list
                             \<Rightarrow> (error + unit) \<times> (int \<times> byte list) list" where
  \<comment> \<open>a stand-in for \<open>_write_page\<close> that only records the address and data of each call\<close>
  "record_page data_address data calls = (Inr (), calls @ [(data_address, data)])"

definition getitem :: "at24mac \<Rightarrow> index \<Rightarrow> bus \<Rightarrow> (error + rvalue) \<times> bus" where
  \<comment> \<open>\<open>__getitem__(self, address)\<close>\<close>
  "getitem self address b =
     (case address of
        IntIndex a \<Rightarrow> priv_read self a 1 b
      | SliceIndex start0 stop0 \<Rightarrow>
          (case (case start0 of
                   Some start \<Rightarrow> if start < 0 \<or> start \<ge> EEPROM_LENGTH
                                 then Inl (ValueError StartBeyondLimit) else Inr start
                 | None \<Rightarrow> Inr 0) of
             Inl e \<Rightarrow> (Inl e, b)
           | Inr start \<Rightarrow>
               (case (case stop0 of
                        Some stop \<Rightarrow> if stop < 0 \<or> stop \<ge> EEPROM_LENGTH
                                     then Inl (ValueError StopBeyondLimit) else Inr stop
                      | None \<Rightarrow> Inr EEPROM_LENGTH) of
                  Inl e \<Rightarrow> (Inl e, b)
                | Inr stop \<Rightarrow> (let len = stop - start in priv_read self start len b)))
      | OtherIndex \<Rightarrow> (Inl (ValueError ItemNotIntOrSlice), b))"

definition setitem :: "at24mac \<Rightarrow> index \<Rightarrow> payload \<Rightarrow> bus \<Rightarrow> (error + unit) \<times> bus" where
  \<comment> \<open>\<open>__setitem__(self, address, data)\<close>\<close>
  "setitem self address data b =
     (case address of
        IntIndex a \<Rightarrow> priv_write self a data b
      | SliceIndex start0 stop0 \<Rightarrow>
          (case (case start0 of
                   Some start \<Rightarrow> if start < 0 \<or> start \<ge> EEPROM_LENGTH
                                 then Inl (ValueError StartBeyondLimit) else Inr start
                 | None \<Rightarrow> Inr 0) of
             Inl e \<Rightarrow> (Inl e, b)
           | Inr start \<Rightarrow>
               (case (case stop0 of
                        Some stop \<Rightarrow> if stop < 0 \<or> stop \<ge> EEPROM_LENGTH
                                     then Inl (ValueError StopBeyondLimit) else Inr stop
                      | None \<Rightarrow> Inr EEPROM_LENGTH) of
                  Inl e \<Rightarrow> (Inl e, b)
                | Inr stop \<Rightarrow> priv_write self start data b))
      | OtherIndex \<Rightarrow> (Inl (ValueError ItemNotIntOrSlice), b))"

definition len_at24mac :: "at24mac \<Rightarrow> int" where
  \<comment> \<open>\<open>__len__(self)\<close>\<close>
  "len_at24mac self = EEPROM_LENGTH"

section \<open>Auxiliary definitions for the analysis\<close>

text \<open>
  The page-writes \<open>_write\<close> issues for a payload, in order: the calls that the recording
  stand-in for \<open>_write_page\<close> collects.
\<close>

definition page_calls :: "int \<Rightarrow> payload \<Rightarrow> (int \<times> byte list) list" where
  "page_calls data_address data = snd (write_body record_page data_address data [])"

text \<open>
  \<open>overwrite m a d\<close> is the memory \<open>m\<close> with the bytes \<open>d\<close> at the addresses
  \<open>a, a + 1, \<dots>\<close>; \<open>run_pages\<close> calls a page writer on a list of (address, data)
  pairs and stops at the first error; \<open>chunks_from a d\<close> cuts \<open>d\<close>, to be stored from
  address \<open>a\<close>, at every multiple of 16; \<open>lead a\<close> is the number of bytes from \<open>a\<close> to
  the next page boundary (0 if \<open>a\<close> is on one); \<open>page_events\<close> and \<open>chunks_events\<close>
  are the bus events of one page-write and of a list of page-writes, on a device
  whose memory is \<open>m\<close>.
\<close>

definition overwrite :: "(nat \<Rightarrow> byte) \<Rightarrow> nat \<Rightarrow> byte list \<Rightarrow> (nat \<Rightarrow> byte)" where
  "overwrite m a d = (\<lambda>x. if a \<le> x \<and> x < a + length d then d ! (x - a) else m x)"

definition read_event :: "at24mac \<Rightarrow> int \<Rightarrow> nat \<Rightarrow> event" where
  "read_event self a n = WriteThenReadinto (eeprom_device self) [word_of_int a] n"

definition page_events :: "at24mac \<Rightarrow> (nat \<Rightarrow> byte) \<Rightarrow> int \<Rightarrow> byte list \<Rightarrow> event list" where
  "page_events self m a d =
     read_event self a (length d) #
     (if map m [nat a ..< nat a + length d] = d then []
      else [Write (eeprom_device self) (word_of_int a # d), Sleep])"

fun run_pages :: "(int \<Rightarrow> byte list \<Rightarrow> 's \<Rightarrow> (error + unit) \<times> 's) \<Rightarrow> (int \<times> byte list) list \<Rightarrow> 's
                    \<Rightarrow> (error + unit) \<times> 's" where
  "run_pages wp [] s = (Inr (), s)"
| "run_pages wp ((a, d) # cs) s =
     (case wp a d s of (Inl e, s') \<Rightarrow> (Inl e, s') | (Inr _, s') \<Rightarrow> run_pages wp cs s')"

function chunks_from :: "int \<Rightarrow> byte list \<Rightarrow> (int \<times> byte list) list" where
  "chunks_from a d =
     (if d = [] then []
      else (let n = min (length d) (nat (16 - a mod 16))
            in (a, take n d) # chunks_from (a + int n) (drop n d)))"
  by pat_completeness auto
termination
proof (relation "measure (\<lambda>(a, d). length d)")
  show "wf (measure (\<lambda>(a, d). length d))" by simp
next
  fix a :: int and d :: "byte list" and n
  assume "d \<noteq> []" and n: "n = min (length d) (nat (16 - a mod 16))"
  have "a mod 16 < 16" by simp
  then have "0 < nat (16 - a mod 16)" by simp
  with \<open>d \<noteq> []\<close> n have "0 < n" by simp
  with \<open>d \<noteq> []\<close> show "((a + int n, drop n d), (a, d)) \<in> measure (\<lambda>(a, d). length d)"
    by simp
qed

definition lead :: "int \<Rightarrow> int" where
  "lead a = (if 16 - a mod 16 = 16 then 0 else 16 - a mod 16)"

fun chunks_events :: "at24mac \<Rightarrow> (nat \<Rightarrow> byte) \<Rightarrow> (int \<times> byte list) list \<Rightarrow> event list" where
  "chunks_events self m [] = []"
| "chunks_events self m ((a, d) # cs) =
     page_events self m a d @ chunks_events self (overwrite m (nat a) d) cs"

text \<open>A concrete device and an erased bus, for instances of the general theorems.\<close>

definition blank_bus :: bus where
  "blank_bus = \<lparr>cells = (\<lambda>_ _. 0), log = []\<rparr>"

definition example_device :: at24mac where
  "example_device = \<lparr>eeprom_device = 0x54, eui_device = 0x5C, mac = [], serial_number = 0\<rparr>"


text \<open>
  \<open>targets dev ev\<close>: the event \<open>ev\<close> is a transaction addressed to the bus address
  \<open>dev\<close>, or a delay. \<open>extends_log dev b b'\<close>: the log of \<open>b'\<close> is the log of \<open>b\<close>
  followed by such events only.
\<close>

fun targets :: "int \<Rightarrow> event \<Rightarrow> bool" where
  "targets dev (Probe a) = False"
| "targets dev (WriteThenReadinto a out n) = (a = dev)"
| "targets dev (Write a msg) = (a = dev)"
| "targets dev Sleep = True"

definition extends_log :: "int \<Rightarrow> bus \<Rightarrow> bus \<Rightarrow> bool" where
  "extends_log dev b b' =
     (take (length (log b)) (log b') = log b \<and>
      list_all (targets dev) (drop (length (log b)) (log b')))"

section \<open>Memory of the device\<close>

lemma overwrite_Cons:
  "overwrite (m(a := x)) (Suc a) xs = overwrite m a (x # xs)"
  by (auto simp: overwrite_def fun_eq_iff nth_Cons' Suc_diff_le)

lemma store_in_page:
  "a mod 16 + length xs \<le> 16 \<Longrightarrow> store m a xs = overwrite m a xs"
proof (induction xs arbitrary: m a)
  case Nil
  then show ?case by (auto simp: overwrite_def fun_eq_iff)
next
  case (Cons x xs)
  show ?case
  proof (cases xs)
    case Nil
    then show ?thesis by (auto simp: overwrite_def fun_eq_iff)
  next
    case (Cons y ys)
    with Cons.prems have lt: "a mod 16 + 1 < 16" by simp
    then have ms: "Suc a mod 16 = Suc (a mod 16)"
      by (simp add: mod_Suc)
    have nx: "(a div 16) * 16 + (a + 1) mod 16 = Suc a"
      using ms div_mult_mod_eq [of a 16] by simp
    have "Suc a mod 16 + length xs \<le> 16"
      using Cons.prems ms by simp
    then have "store (m(a := x)) (Suc a) xs = overwrite (m(a := x)) (Suc a) xs"
      by (rule Cons.IH)
    then show ?thesis
      using nx by (simp add: overwrite_Cons)
  qed
qed

lemma overwrite_same:
  "map m [a ..< a + length d] = d \<Longrightarrow> overwrite m a d = m"
proof -
  assume h: "map m [a ..< a + length d] = d"
  have "\<And>x. a \<le> x \<Longrightarrow> x < a + length d \<Longrightarrow> d ! (x - a) = m x"
  proof -
    fix x assume "a \<le> x" "x < a + length d"
    then have "map m [a ..< a + length d] ! (x - a) = m (a + (x - a))"
      by (intro nth_map_upt) simp
    with h \<open>a \<le> x\<close> show "d ! (x - a) = m x" by simp
  qed
  then show ?thesis by (auto simp: overwrite_def fun_eq_iff)
qed

lemma read_overwrite:
  "map (overwrite m a d) [a ..< a + length d] = d"
  by (rule nth_equalityI) (auto simp: overwrite_def)

lemma overwrite_append:
  "overwrite (overwrite m a xs) (a + length xs) ys = overwrite m a (xs @ ys)"
  by (auto simp: overwrite_def fun_eq_iff nth_append)

section \<open>Reading, comparing and writing one page\<close>

lemma pointer_to_bytes1:
  "0 \<le> a \<Longrightarrow> a < 256 \<Longrightarrow> to_bytes1 a = Inr [word_of_int a] \<and> pointer [word_of_int a :: byte] = nat a"
  by (simp add: to_bytes1_def pointer_def unat_eq_nat_uint uint_word_of_int)

lemma priv_read_ok:
  assumes "0 \<le> a" "1 \<le> n" "a + n \<le> 256"
  shows "priv_read self a n b =
           (Inr (if n > 1 then RBytes (map (cells b (eeprom_device self)) [nat a ..< nat a + nat n])
                 else RInt (uint (cells b (eeprom_device self) (nat a)))),
            b\<lparr>log := log b @ [read_event self a (nat n)]\<rparr>)"
proof -
  have a: "a < 256" using assms by simp
  note p = pointer_to_bytes1 [OF assms(1) a]
  show ?thesis
  proof (cases "n > 1")
    case True
    then show ?thesis using assms p
      by (simp add: priv_read_def EEPROM_LENGTH_def write_then_readinto_def read_event_def)
  next
    case False
    with assms have n: "n = 1" by simp
    show ?thesis using assms p unfolding n
      by (simp add: priv_read_def EEPROM_LENGTH_def write_then_readinto_def read_event_def)
  qed
qed

lemma uint_byte_bound: "uint (w :: byte) < 256"
  using uint_lt2p [of w] by simp

lemma does_data_match_ok:
  assumes "0 \<le> a" "1 \<le> length d" "a + int (length d) \<le> 256"
  shows "does_data_match self a d b =
           (Inr (map (cells b (eeprom_device self)) [nat a ..< nat a + length d] = d),
            b\<lparr>log := log b @ [read_event self a (length d)]\<rparr>)"
proof (cases "length d = 1")
  case True
  then obtain x where d: "d = [x]" by (cases d) auto
  show ?thesis using assms unfolding d
    by (auto simp add: does_data_match_def priv_read_ok py_bytes_def uint_byte_bound)
next
  case False
  with assms have "1 < int (length d)" by simp
  then show ?thesis using assms False
    by (simp add: does_data_match_def priv_read_ok)
qed

lemma priv_write_page_ok:
  assumes "0 \<le> a" "1 \<le> length d" "a mod 16 + int (length d) \<le> 16" "a + int (length d) \<le> 256"
  shows "priv_write_page self a d b =
           (Inr (), b\<lparr>cells := (cells b)(eeprom_device self :=
                                    overwrite (cells b (eeprom_device self)) (nat a) d),
                        log := log b @ page_events self (cells b (eeprom_device self)) a d\<rparr>)"
proof -
  have a: "a < 256" using assms by simp
  note p = pointer_to_bytes1 [OF assms(1) a]
  have u: "unat (word_of_int a :: byte) = nat a" using p by (simp add: pointer_def)
  have "int (nat a mod 16) = a mod 16"
    using assms(1) by (simp add: zmod_int)
  then have "nat a mod 16 + length d \<le> 16"
    using assms(3) by linarith
  then have st: "store m (nat a) d = overwrite m (nat a) d" for m
    by (rule store_in_page)
  show ?thesis
  proof (cases "map (cells b (eeprom_device self)) [nat a ..< nat a + length d] = d")
    case True
    then show ?thesis using assms
      by (simp add: priv_write_page_def does_data_match_ok page_events_def overwrite_same)
  next
    case False
    then show ?thesis using assms p u
      by (simp add: priv_write_page_def does_data_match_ok page_events_def i2c_write_def
            sleep_def st)
  qed
qed

section \<open>Cutting a payload at the page boundaries\<close>

declare chunks_from.simps [simp del]

lemma chunks_from_Nil [simp]: "chunks_from a [] = []"
  by (simp add: chunks_from.simps)

lemma chunk_single:
  assumes "xs \<noteq> []" "a mod 16 + int (length xs) \<le> 16"
  shows "chunks_from a xs = [(a, xs)]"
proof -
  have "min (length xs) (nat (16 - a mod 16)) = length xs"
    using assms(2) by simp
  then show ?thesis using assms(1)
    by (subst chunks_from.simps) (simp add: Let_def)
qed

lemma chunks_split:
  "(a + int (length xs)) mod 16 = 0 \<Longrightarrow>
     chunks_from a (xs @ ys) = chunks_from a xs @ chunks_from (a + int (length xs)) ys"
proof (induction a xs rule: chunks_from.induct)
  case (1 a d)
  show ?case
  proof (cases "d = []")
    case True
    then show ?thesis by simp
  next
    case False
    define n where "n = min (length d) (nat (16 - a mod 16))"
    have n16: "int n \<le> 16 - a mod 16" by (simp add: n_def)
    have nle: "n \<le> length d" by (simp add: n_def)
    have full: "min (length (d @ ys)) (nat (16 - a mod 16)) = n"
    proof (cases "length d \<le> nat (16 - a mod 16)")
      case True
      then have nd: "n = length d" by (simp add: n_def)
      have x2: "a mod 16 + int (length d) \<le> 16" using True by simp
      have p: "0 \<le> a mod 16" by simp
      have q: "0 < int (length d)" using False by simp
      from p q have x1: "0 < a mod 16 + int (length d)" by linarith
      note x = x1 x2
      have "(a mod 16 + int (length d)) mod 16 = 0"
        using "1.prems" by (simp add: mod_add_left_eq)
      then have "a mod 16 + int (length d) = 16"
        using x by (cases "a mod 16 + int (length d) < 16") simp_all
      then show ?thesis using nd by simp
    next
      case False
      then show ?thesis by (simp add: n_def)
    qed
    have ih: "chunks_from (a + int n) (drop n d @ ys)
              = chunks_from (a + int n) (drop n d)
                @ chunks_from (a + int n + int (length (drop n d))) ys"
      using "1.IH" [OF False n_def] "1.prems" nle by (simp add: algebra_simps)
    have lhs: "chunks_from a (d @ ys) = (a, take n d) # chunks_from (a + int n) (drop n d @ ys)"
      using False full nle by (subst chunks_from.simps) (simp add: Let_def)
    have rhs: "chunks_from a d = (a, take n d) # chunks_from (a + int n) (drop n d)"
      using False by (subst chunks_from.simps) (simp add: Let_def n_def)
    show ?thesis using lhs rhs ih nle by (simp add: algebra_simps)
  qed
qed

section \<open>The loop over the full pages\<close>

lemma py_slice_bounds:
  "0 \<le> i \<Longrightarrow> i \<le> j \<Longrightarrow> py_slice xs (Some i) (Some j) = take (nat (j - i)) (drop (nat i) xs)"
  by (auto simp: py_slice_def slice_index_def Let_def min_def nat_diff_distrib)

lemma py_slice_from:
  "0 \<le> i \<Longrightarrow> py_slice xs (Some i) None = drop (nat i) xs"
  by (auto simp: py_slice_def slice_index_def Let_def min_def)

lemma chunks_aligned_step:
  assumes "a mod 16 = 0" "xs \<noteq> []" "length xs \<le> 16" "length xs < 16 \<longrightarrow> ys = []"
  shows "chunks_from a (xs @ ys) = (a, xs) # chunks_from (a + 16) ys"
proof (cases "length xs < 16")
  case True
  with assms have "ys = []" by simp
  moreover have "chunks_from a xs = [(a, xs)]"
    using assms by (intro chunk_single) simp_all
  ultimately show ?thesis by simp
next
  case False
  with assms have l: "length xs = 16" by simp
  then have "(a + int (length xs)) mod 16 = 0" using assms(1) by presburger
  then have "chunks_from a (xs @ ys) = chunks_from a xs @ chunks_from (a + int (length xs)) ys"
    by (rule chunks_split)
  moreover have "chunks_from a xs = [(a, xs)]"
    using assms l by (intro chunk_single) simp_all
  ultimately show ?thesis using l by simp
qed

declare write_loop.simps [simp del]

lemma write_loop_chunks:
  "0 \<le> i \<Longrightarrow> cur mod 16 = 0 \<Longrightarrow> stop \<le> int (length data) \<Longrightarrow>
   write_loop wp i stop cur data s =
     (case run_pages wp (chunks_from cur (take (16 * nat ((stop - i + 15) div 16))
                                            (drop (nat i) data))) s of
        (Inl e, s') \<Rightarrow> (Inl e, s')
      | (Inr u, s') \<Rightarrow> (Inr (cur + 16 * int (nat ((stop - i + 15) div 16))), s'))"
proof (induction wp i stop cur data s rule: write_loop.induct)
  case (1 wp i stop cur data s)
  show ?case
  proof (cases "i < stop")
    case False
    then have "nat ((stop - i + 15) div 16) = 0" by simp
    then show ?thesis using False by (subst write_loop.simps) simp
  next
    case True
    define K' where "K' = nat ((stop - (i + 16) + 15) div 16)"
    have "stop - i + 15 = (stop - (i + 16) + 15) + 16" by simp
    then have "(stop - i + 15) div 16 = (stop - (i + 16) + 15) div 16 + 1"
      by (metis div_add_self2 zero_neq_numeral)
    moreover have "0 \<le> (stop - (i + 16) + 15) div 16"
      using True by (simp add: pos_imp_zdiv_nonneg_iff)
    ultimately have K: "nat ((stop - i + 15) div 16) = Suc K'"
      unfolding K'_def by simp
    define xs where "xs = take 16 (drop (nat i) data)"
    define ys where "ys = take (16 * K') (drop (nat (i + 16)) data)"
    have sl: "py_slice data (Some i) (Some (i + PAGE_SIZE)) = xs"
      using "1.prems"(1) by (simp add: py_slice_bounds PAGE_SIZE_def xs_def)
    have il: "nat i < length data" using True "1.prems" by simp
    have tk: "take (16 * Suc K') (drop (nat i) data) = xs @ ys"
    proof -
      have "take (16 + 16 * K') (drop (nat i) data)
            = take 16 (drop (nat i) data) @ take (16 * K') (drop 16 (drop (nat i) data))"
        by (rule take_add)
      moreover have "drop 16 (drop (nat i) data) = drop (nat (i + 16)) data"
        using "1.prems"(1) by (simp add: nat_add_distrib add.commute)
      ultimately show ?thesis by (simp add: xs_def ys_def)
    qed
    have ch: "chunks_from cur (xs @ ys) = (cur, xs) # chunks_from (cur + 16) ys"
    proof (rule chunks_aligned_step)
      show "cur mod 16 = 0" by (rule "1.prems"(2))
      show "xs \<noteq> []" using il by (simp add: xs_def)
      show "length xs \<le> 16" by (simp add: xs_def)
      show "length xs < 16 \<longrightarrow> ys = []"
        using "1.prems"(1) by (auto simp: xs_def ys_def nat_add_distrib)
    qed
    have c16: "(cur + 16) mod 16 = 0" using "1.prems"(2) by presburger
    show ?thesis
    proof (cases "wp cur xs s")
      case (Pair r s1)
      show ?thesis
      proof (cases r)
        case (Inl e)
        then show ?thesis unfolding K tk ch using True Pair sl
          by (subst write_loop.simps) simp
      next
        case (Inr u)
        have ih: "write_loop wp (i + PAGE_SIZE) stop (cur + PAGE_SIZE) data s1 =
                    (case run_pages wp (chunks_from (cur + 16) ys) s1 of
                       (Inl e, s') \<Rightarrow> (Inl e, s')
                     | (Inr u, s') \<Rightarrow> (Inr (cur + 16 + 16 * int K'), s'))"
        proof -
          have p1: "(r, s1) = wp cur (py_slice data (Some i) (Some (i + PAGE_SIZE))) s"
            using Pair sl by simp
          have p2: "0 \<le> i + PAGE_SIZE" using "1.prems"(1) by (simp add: PAGE_SIZE_def)
          have p3: "(cur + PAGE_SIZE) mod 16 = 0" using c16 by (simp add: PAGE_SIZE_def)
          show ?thesis
            using "1.IH" [OF True p1 Inr p2 p3 "1.prems"(3)]
            unfolding PAGE_SIZE_def K'_def ys_def by simp
        qed
        have eq: "cur + 16 * int (Suc K') = cur + 16 + 16 * int K'" by simp
        show ?thesis unfolding K tk ch eq using True Pair Inr sl ih
          by (subst write_loop.simps) simp
      qed
    qed
  qed
qed

section \<open>A write as a list of page-writes\<close>

lemma run_pages_append:
  "run_pages wp (xs @ ys) s =
     (case run_pages wp xs s of (Inl e, s') \<Rightarrow> (Inl e, s') | (Inr u, s') \<Rightarrow> run_pages wp ys s')"
  by (induction wp xs s rule: run_pages.induct) (auto split: prod.splits sum.splits)

lemma run_pages_single:
  "run_pages wp [(a, d)] s = wp a d s"
  by (cases "wp a d s") (auto split: sum.splits)

lemma tail_split:
  assumes "c mod 16 = 0" "length xs < 16 * t + 16"
  shows "chunks_from c xs =
           chunks_from c (take (16 * t) xs) @
           (if 16 * t < length xs then [(c + 16 * int t, drop (16 * t) xs)] else [])"
proof (cases "16 * t < length xs")
  case False
  then show ?thesis by simp
next
  case True
  have al: "(c + 16 * int t) mod 16 = 0" using assms(1) by simp
  have len: "length (take (16 * t) xs) = 16 * t" using True by simp
  have "chunks_from c (take (16 * t) xs @ drop (16 * t) xs)
        = chunks_from c (take (16 * t) xs)
          @ chunks_from (c + int (length (take (16 * t) xs))) (drop (16 * t) xs)"
    by (rule chunks_split) (simp only: len, simp add: assms(1))
  moreover have "chunks_from (c + 16 * int t) (drop (16 * t) xs)
                 = [(c + 16 * int t, drop (16 * t) xs)]"
  proof (rule chunk_single)
    show "drop (16 * t) xs \<noteq> []" using True by simp
    show "(c + 16 * int t) mod 16 + int (length (drop (16 * t) xs)) \<le> 16"
      using al assms(2) True by simp
  qed
  ultimately show ?thesis using True len by simp
qed

lemma lead_bounds: "0 \<le> lead a" "lead a < 16" "(a + lead a) mod 16 = 0"
proof -
  define r where "r = a mod 16"
  have "0 \<le> r" "r < 16" by (simp_all add: r_def)
  then show "0 \<le> lead a" "lead a < 16"
    unfolding lead_def r_def [symmetric] by simp_all
  show "(a + lead a) mod 16 = 0"
  proof (cases "a mod 16 = 0")
    case True
    then show ?thesis by (simp add: lead_def)
  next
    case False
    then have "a + lead a = a - a mod 16 + 16" by (simp add: lead_def)
    also have "\<dots> = 16 * (a div 16) + 16" by (simp add: minus_mod_eq_mult_div)
    finally show ?thesis by simp
  qed
qed

lemma lead_first:
  "0 < lead a \<Longrightarrow> a mod 16 + lead a = 16"
  by (simp add: lead_def split: if_splits)

lemma chunks_plan:
  assumes "1 < length d"
  shows "chunks_from a d =
           (if 0 < lead a then [(a, take (nat (lead a)) d)] else []) @
           chunks_from (a + lead a) (take (16 * (length d div 16)) (drop (nat (lead a)) d)) @
           (if 0 < int (length d) mod 16 - lead a
            then [(a + lead a + 16 * int (length d div 16),
                   drop (nat (lead a) + 16 * (length d div 16)) d)]
            else [])"
proof -
  define o' where "o' = nat (lead a)"
  define t where "t = length d div 16"
  have o: "int o' = lead a" "o' < 16"
    using lead_bounds [of a] by (simp_all add: o'_def)
  have L: "length d = 16 * t + length d mod 16" by (simp add: t_def)
  have r: "length d mod 16 < 16" by simp
  show ?thesis
  proof (cases "length d < o'")
    case True
    then have t0: "t = 0" using o by (simp add: t_def)
    have pos: "0 < lead a" using True o by simp
    have "chunks_from a d = [(a, d)]"
    proof (rule chunk_single)
      show "d \<noteq> []" using assms by auto
      show "a mod 16 + int (length d) \<le> 16"
        using lead_first [OF pos] True o by simp
    qed
    moreover have "\<not> 0 < int (length d) mod 16 - lead a"
      using True o by (simp add: zmod_int [symmetric])
    ultimately show ?thesis
      using True pos t0 by (simp add: o'_def [symmetric] t_def [symmetric])
  next
    case False
    then have len: "length (take o' d) = o'" by simp
    have al: "(a + int (length (take o' d))) mod 16 = 0"
      using lead_bounds(3) [of a] o by (simp only: len)
    have s1: "chunks_from a (take o' d @ drop o' d)
              = chunks_from a (take o' d) @ chunks_from (a + int (length (take o' d))) (drop o' d)"
      using al by (rule chunks_split)
    have first: "chunks_from a (take o' d) = (if 0 < lead a then [(a, take o' d)] else [])"
    proof (cases "0 < lead a")
      case True
      have "chunks_from a (take o' d) = [(a, take o' d)]"
      proof (rule chunk_single)
        show "take o' d \<noteq> []" using True o assms by auto
        show "a mod 16 + int (length (take o' d)) \<le> 16"
          using lead_first [OF True] o by (simp only: len)
      qed
      then show ?thesis using True by simp
    next
      case False
      then have "o' = 0" using o by simp
      then show ?thesis using False by simp
    qed
    have s2: "chunks_from (a + lead a) (drop o' d)
              = chunks_from (a + lead a) (take (16 * t) (drop o' d)) @
                (if 16 * t < length (drop o' d)
                 then [(a + lead a + 16 * int t, drop (16 * t) (drop o' d))] else [])"
    proof (rule tail_split)
      show "(a + lead a) mod 16 = 0" by (rule lead_bounds)
      show "length (drop o' d) < 16 * t + 16" using L r by simp
    qed
    have cond: "(16 * t < length (drop o' d)) = (0 < int (length d) mod 16 - lead a)"
    proof -
      have m: "int (length d) mod 16 = int (length d mod 16)" by (simp add: zmod_int)
      have "(16 * t < length d - o') = (o' < length d mod 16)"
        using L False by arith
      also have "\<dots> = (int o' < int (length d mod 16))" by simp
      finally show ?thesis unfolding m o(1) by simp
    qed
    show ?thesis
      using s1 first s2 len o unfolding cond
      by (simp add: o'_def [symmetric] t_def [symmetric] add.commute)
  qed
qed

lemma write_body_chunks:
  assumes c: "coerce data = Inr d" and l: "1 \<le> length d" and fit: "int (length d) + A \<le> 256"
  shows "write_body wp A data s = run_pages wp (chunks_from A d) s"
proof (cases "length d = 1")
  case True
  have "chunks_from A d = [(A, d)]"
  proof (rule chunk_single)
    show "d \<noteq> []" using True by auto
    have "A mod 16 < 16" by simp
    then show "A mod 16 + int (length d) \<le> 16" using True by simp
  qed
  then show ?thesis using True c fit
    by (simp add: write_body_def EEPROM_LENGTH_def run_pages_single py_slice_from
          del: run_pages.simps)
next
  case False
  with l have big: "1 < length d" by simp
  define o' where "o' = lead A"
  define t where "t = int (length d) div 16"
  define r where "r = int (length d) mod 16"
  define F where "F = (if 0 < o' then [(A, take (nat o') d)] else [])"
  define M where "M = chunks_from (A + o') (take (16 * (length d div 16)) (drop (nat o') d))"
  define T where "T = (if 0 < r - o'
                       then [(A + o' + 16 * int (length d div 16),
                              drop (nat o' + 16 * (length d div 16)) d)]
                       else [])"
  have ob: "0 \<le> o'" "o' < 16" "(A + o') mod 16 = 0"
    using lead_bounds [of A] by (simp_all add: o'_def)
  have tn: "t = int (length d div 16)" "0 \<le> t" by (simp_all add: t_def zdiv_int)
  have plan: "chunks_from A d = F @ M @ T"
    unfolding F_def M_def T_def o'_def r_def by (rule chunks_plan [OF big])
  have wb: "write_body wp A data s =
      (case (if 0 < o'
             then (case wp A (py_slice d (Some 0) (Some o')) s of
                     (Inl e, s') \<Rightarrow> (Inl e, s')
                   | (Inr _, s') \<Rightarrow> (Inr (A + o'), s'))
             else (Inr A, s)) of
         (Inl e, s1) \<Rightarrow> (Inl e, s1)
       | (Inr cur, s1) \<Rightarrow>
           (case (if 0 < t then write_loop wp o' (t * 16) cur d s1 else (Inr cur, s1)) of
              (Inl e, s2) \<Rightarrow> (Inl e, s2)
            | (Inr cur', s2) \<Rightarrow>
                if 0 < r - o' then wp cur' (py_slice d (Some (o' + t * 16)) None) s2
                else (Inr (), s2)))"
    unfolding write_body_def o'_def t_def r_def lead_def PAGE_SIZE_def EEPROM_LENGTH_def Let_def
    using c fit big by simp
  have first: "(if 0 < o'
             then (case wp A (py_slice d (Some 0) (Some o')) s of
                     (Inl e, s') \<Rightarrow> (Inl e, s')
                   | (Inr _, s') \<Rightarrow> (Inr (A + o'), s'))
             else (Inr A, s)) =
          (case run_pages wp F s of (Inl e, s') \<Rightarrow> (Inl e, s') | (Inr u, s') \<Rightarrow> (Inr (A + o'), s'))"
    using ob by (auto simp: F_def py_slice_bounds split: prod.splits sum.splits)
  have loop: "(if 0 < t then write_loop wp o' (t * 16) (A + o') d s1 else (Inr (A + o'), s1)) =
          (case run_pages wp M s1 of
             (Inl e, s') \<Rightarrow> (Inl e, s')
           | (Inr u, s') \<Rightarrow> (Inr (A + o' + 16 * t), s'))" for s1
  proof -
    have "t * 16 + int (length d) mod 16 = int (length d)"
      unfolding t_def by (rule div_mult_mod_eq)
    moreover have "0 \<le> int (length d) mod 16" by simp
    ultimately have "t * 16 \<le> int (length d)" by linarith
    then have wl: "write_loop wp o' (t * 16) (A + o') d s1 =
        (case run_pages wp (chunks_from (A + o') (take (16 * nat ((t * 16 - o' + 15) div 16))
                                            (drop (nat o') d))) s1 of
        (Inl e, s') \<Rightarrow> (Inl e, s')
      | (Inr u, s') \<Rightarrow> (Inr (A + o' + 16 * int (nat ((t * 16 - o' + 15) div 16))), s'))"
      using ob by (intro write_loop_chunks) simp_all
    have "(t * 16 - o' + 15) div 16 = t"
    proof -
      have "t * 16 - o' + 15 = (15 - o') + t * 16" by simp
      then have "(t * 16 - o' + 15) div 16 = (15 - o') div 16 + t"
        by (simp only: div_mult_self1 [of 16 "15 - o'" t, simplified])
      moreover have "(15 - o') div 16 = 0" using ob by simp
      ultimately show ?thesis by simp
    qed
    then have K: "nat ((t * 16 - o' + 15) div 16) = length d div 16"
      "int (nat ((t * 16 - o' + 15) div 16)) = t"
      using tn by simp_all
    show ?thesis
    proof (cases "0 < t")
      case True
      then show ?thesis using wl unfolding K(1) tn(1) [symmetric] M_def by simp
    next
      case False
      then have "length d div 16 = 0" "t = 0" using tn by simp_all
      then show ?thesis using False by (simp add: M_def)
    qed
  qed
  have tail: "(if 0 < r - o' then wp (A + o' + 16 * t) (py_slice d (Some (o' + t * 16)) None) s2
               else (Inr (), s2)) = run_pages wp T s2" for s2
  proof -
    have "nat (o' + t * 16) = nat o' + 16 * (length d div 16)"
      using ob tn by (simp add: nat_add_distrib nat_mult_distrib)
    then show ?thesis using ob tn
      by (simp add: T_def run_pages_single py_slice_from del: run_pages.simps(2))
  qed
  show ?thesis
  proof (cases "run_pages wp F s")
    case (Pair r1 s1)
    show ?thesis
    proof (cases r1)
      case (Inl e)
      then show ?thesis using Pair unfolding wb first plan run_pages_append by simp
    next
      case (Inr u)
      show ?thesis
      proof (cases "run_pages wp M s1")
        case (Pair r2 s2)
        note P2 = this
        show ?thesis
        proof (cases r2)
          case (Inl e)
          then show ?thesis
            using \<open>run_pages wp F s = (r1, s1)\<close> Inr P2
            unfolding wb first plan run_pages_append by (simp add: loop)
        next
          case (Inr u2)
          then show ?thesis
            using \<open>run_pages wp F s = (r1, s1)\<close> \<open>r1 = Inr u\<close> P2 tail [of s2]
            unfolding wb first plan run_pages_append by (auto simp: loop)
        qed
      qed
    qed
  qed
qed

section \<open>Properties of the page-writes and their effect on the bus\<close>

lemma chunks_from_step:
  assumes "d \<noteq> []"
  shows "\<exists>n. 0 < n \<and> n \<le> length d \<and> a mod 16 + int n \<le> 16 \<and>
             chunks_from a d = (a, take n d) # chunks_from (a + int n) (drop n d)"
proof -
  define n where "n = min (length d) (nat (16 - a mod 16))"
  have "a mod 16 < 16" by simp
  then have "0 < nat (16 - a mod 16)" by simp
  then have "0 < n" using assms by (simp add: n_def)
  moreover have "n \<le> length d" by (simp add: n_def)
  moreover have "a mod 16 + int n \<le> 16" by (simp add: n_def)
  moreover have "chunks_from a d = (a, take n d) # chunks_from (a + int n) (drop n d)"
    using assms by (subst chunks_from.simps) (simp add: Let_def n_def)
  ultimately show ?thesis by blast
qed

lemma chunks_from_concat: "concat (map snd (chunks_from a d)) = d"
proof (induction "length d" arbitrary: a d rule: less_induct)
  case less
  show ?case
  proof (cases "d = []")
    case True
    then show ?thesis by simp
  next
    case False
    from chunks_from_step [OF False, of a] obtain n where
      n: "0 < n" "n \<le> length d" and
      eq: "chunks_from a d = (a, take n d) # chunks_from (a + int n) (drop n d)" by blast
    have "length (drop n d) < length d" using n False by simp
    then have "concat (map snd (chunks_from (a + int n) (drop n d))) = drop n d"
      by (rule less)
    then show ?thesis using eq by simp
  qed
qed

lemma chunks_from_good:
  "(c, xs) \<in> set (chunks_from a d) \<Longrightarrow>
     xs \<noteq> [] \<and> c mod 16 + int (length xs) \<le> 16 \<and> a \<le> c \<and>
     c + int (length xs) \<le> a + int (length d)"
proof (induction "length d" arbitrary: a d rule: less_induct)
  case less
  show ?case
  proof (cases "d = []")
    case True
    with less.prems show ?thesis by simp
  next
    case False
    from chunks_from_step [OF False, of a] obtain n where
      n: "0 < n" "n \<le> length d" "a mod 16 + int n \<le> 16" and
      eq: "chunks_from a d = (a, take n d) # chunks_from (a + int n) (drop n d)" by blast
    from less.prems eq
    consider "c = a" "xs = take n d" | "(c, xs) \<in> set (chunks_from (a + int n) (drop n d))"
      by auto
    then show ?thesis
    proof cases
      case 1
      then show ?thesis using n False by simp
    next
      case 2
      have "length (drop n d) < length d" using n False by simp
      from less.hyps [OF this 2] show ?thesis using n by simp
    qed
  qed
qed

lemma chunks_from_addresses:
  "k < length (chunks_from a d) \<Longrightarrow>
     fst (chunks_from a d ! k) = a + int (length (concat (map snd (take k (chunks_from a d)))))"
proof (induction "length d" arbitrary: a d k rule: less_induct)
  case less
  show ?case
  proof (cases "d = []")
    case True
    with less.prems show ?thesis by simp
  next
    case False
    from chunks_from_step [OF False, of a] obtain n where
      n: "0 < n" "n \<le> length d" and
      eq: "chunks_from a d = (a, take n d) # chunks_from (a + int n) (drop n d)" by blast
    show ?thesis
    proof (cases k)
      case 0
      then show ?thesis using eq by simp
    next
      case (Suc j)
      have lt: "length (drop n d) < length d" using n False by simp
      have j: "j < length (chunks_from (a + int n) (drop n d))"
        using less.prems eq Suc by simp
      from less.hyps [OF lt j] show ?thesis using eq Suc n by simp
    qed
  qed
qed

lemma run_chunks:
  "0 \<le> a \<Longrightarrow> a + int (length d) \<le> 256 \<Longrightarrow>
   run_pages (priv_write_page self) (chunks_from a d) b =
     (Inr (), b\<lparr>cells := (cells b)(eeprom_device self :=
                              overwrite (cells b (eeprom_device self)) (nat a) d),
                  log := log b @ chunks_events self (cells b (eeprom_device self))
                                   (chunks_from a d)\<rparr>)"
proof (induction "length d" arbitrary: a d b rule: less_induct)
  case less
  show ?case
  proof (cases "d = []")
    case True
    have "overwrite m (nat a) [] = m" for m by (auto simp: overwrite_def fun_eq_iff)
    then show ?thesis using True by simp
  next
    case False
    from chunks_from_step [OF False, of a] obtain n where
      n: "0 < n" "n \<le> length d" "a mod 16 + int n \<le> 16" and
      eq: "chunks_from a d = (a, take n d) # chunks_from (a + int n) (drop n d)" by blast
    define dev where "dev = eeprom_device self"
    define b1 where "b1 = b\<lparr>cells := (cells b)(dev := overwrite (cells b dev) (nat a) (take n d)),
                              log := log b @ page_events self (cells b dev) a (take n d)\<rparr>"
    have len: "length (take n d) = n" using n by simp
    have w1: "priv_write_page self a (take n d) b = (Inr (), b1)"
      unfolding b1_def dev_def
    proof (rule priv_write_page_ok)
      show "0 \<le> a" by (rule less.prems)
      show "1 \<le> length (take n d)" unfolding len using n by simp
      show "a mod 16 + int (length (take n d)) \<le> 16" unfolding len using n by simp
      show "a + int (length (take n d)) \<le> 256" unfolding len using n less.prems by simp
    qed
    have lt: "length (drop n d) < length d" using n False by simp
    have r: "run_pages (priv_write_page self) (chunks_from (a + int n) (drop n d)) b1 =
          (Inr (), b1\<lparr>cells := (cells b1)(eeprom_device self :=
                              overwrite (cells b1 (eeprom_device self)) (nat (a + int n)) (drop n d)),
                  log := log b1 @ chunks_events self (cells b1 (eeprom_device self))
                                   (chunks_from (a + int n) (drop n d))\<rparr>)"
      using less.prems n by (intro less.hyps [OF lt]) simp_all
    have na: "nat (a + int n) = nat a + length (take n d)"
      unfolding len using less.prems(1) by (simp add: nat_add_distrib)
    have ow: "overwrite (overwrite m (nat a) (take n d)) (nat (a + int n)) (drop n d)
              = overwrite m (nat a) d" for m
      unfolding na overwrite_append by simp
    show ?thesis
      unfolding eq using w1 r
      by (simp add: b1_def dev_def ow)
  qed
qed

lemma priv_write_ok:
  assumes "coerce data = Inr d" "1 \<le> length d" "0 \<le> a" "a + int (length d) \<le> 256"
  shows "priv_write self a data b =
     (Inr (), b\<lparr>cells := (cells b)(eeprom_device self :=
                              overwrite (cells b (eeprom_device self)) (nat a) d),
                  log := log b @ chunks_events self (cells b (eeprom_device self))
                                   (chunks_from a d)\<rparr>)"
proof -
  have "priv_write self a data b = run_pages (priv_write_page self) (chunks_from a d) b"
    unfolding priv_write_def using assms by (intro write_body_chunks) simp_all
  then show ?thesis using assms by (simp add: run_chunks)
qed

section \<open>The page-writes of one write\<close>

lemma run_pages_record:
  "run_pages record_page cs acc = (Inr (), acc @ cs)"
  by (induction cs arbitrary: acc) (auto simp: record_page_def)

lemma page_calls_chunks:
  assumes "coerce data = Inr d" "1 \<le> length d" "a + int (length d) \<le> 256"
  shows "write_body record_page a data [] = (Inr (), chunks_from a d)"
    and "page_calls a data = chunks_from a d"
proof -
  have "write_body record_page a data [] = run_pages record_page (chunks_from a d) []"
    using assms by (intro write_body_chunks) simp_all
  then show "write_body record_page a data [] = (Inr (), chunks_from a d)"
    by (simp add: run_pages_record)
  then show "page_calls a data = chunks_from a d"
    by (simp add: page_calls_def)
qed

lemmas write_evals = write_body_def coerce_def EEPROM_LENGTH_def PAGE_SIZE_def record_page_def
  py_slice_def slice_index_def write_loop.simps Let_def page_calls_def

text \<open>
  Claim C5. For every starting address \<open>A\<close> and every payload of \<open>L \<ge> 1\<close> bytes with
  \<open>A + L \<le> 256\<close>, the page-writes that \<open>_write\<close> issues carry the payload bytes exactly
  once and in payload order: the data of the calls, concatenated, is the payload, no
  call is empty, and each call's address is \<open>A\<close> plus the number of bytes of the calls
  before it. This holds whatever the sign of the remaining-bytes counter.
\<close>

theorem write_splits_payload_in_order:
  assumes "1 \<le> length d" "A + int (length d) \<le> 256"
  shows "fst (write_body record_page A (PBytes d) []) = Inr () \<and>
         concat (map snd (page_calls A (PBytes d))) = d \<and>
         (\<forall>k < length (page_calls A (PBytes d)).
            snd (page_calls A (PBytes d) ! k) \<noteq> [] \<and>
            fst (page_calls A (PBytes d) ! k) =
              A + int (length (concat (map snd (take k (page_calls A (PBytes d)))))))"
proof -
  have c: "coerce (PBytes d) = Inr d" by (simp add: coerce_def)
  note pc = page_calls_chunks [OF c assms]
  have "snd (chunks_from A d ! k) \<noteq> []" if "k < length (chunks_from A d)" for k
  proof -
    have "(fst (chunks_from A d ! k), snd (chunks_from A d ! k)) \<in> set (chunks_from A d)"
      using that by simp
    then show ?thesis by (rule chunks_from_good [THEN conjunct1])
  qed
  then show ?thesis
    unfolding pc by (simp add: chunks_from_concat chunks_from_addresses)
qed

text \<open>
  An instance with a negative remaining-bytes counter: 20 bytes at address 10 give
  \<open>remaining_bytes = 20 mod 16 - 6 = -2\<close>.
\<close>

theorem write_splits_payload_in_order_witness:
  "fst (write_body record_page 10
          (PBytes [1,2,3,4,5,6,7,8,9,10,11,12,13,14,15,16,17,18,19,20]) []) = Inr () \<and>
   concat (map snd (page_calls 10 (PBytes [1,2,3,4,5,6,7,8,9,10,11,12,13,14,15,16,17,18,19,20])))
     = [1,2,3,4,5,6,7,8,9,10,11,12,13,14,15,16,17,18,19,20]"
  using write_splits_payload_in_order
          [of "[1,2,3,4,5,6,7,8,9,10,11,12,13,14,15,16,17,18,19,20]" 10]
  by simp

section \<open>Bus transactions of a write\<close>

lemma chunks_events_Write:
  "Write dev msg \<in> set (chunks_events self m cs) \<Longrightarrow>
     dev = eeprom_device self \<and> (\<exists>a c. (a, c) \<in> set cs \<and> msg = word_of_int a # c)"
proof (induction cs arbitrary: m)
  case Nil
  then show ?case by simp
next
  case (Cons p cs)
  obtain a c where p: "p = (a, c)" by (cases p)
  from Cons.prems p
  consider "Write dev msg \<in> set (page_events self m a c)"
    | "Write dev msg \<in> set (chunks_events self (overwrite m (nat a) c) cs)"
    by auto
  then show ?case
  proof cases
    case 1
    then show ?thesis using p
      by (auto simp: page_events_def read_event_def split: if_splits)
  next
    case 2
    from Cons.IH [OF 2] show ?thesis by auto
  qed
qed

lemma priv_write_log:
  assumes "coerce data = Inr d" "1 \<le> length d" "0 \<le> A" "A + int (length d) \<le> 256"
  shows "drop (length (log b)) (log (snd (priv_write self A data b)))
           = chunks_events self (cells b (eeprom_device self)) (chunks_from A d)"
  using assms by (simp add: priv_write_ok)

lemmas bus_evals = priv_write_def priv_write_page_def does_data_match_def priv_read_def
  write_then_readinto_def i2c_write_def sleep_def to_bytes1_def py_bytes_def pointer_def
  blank_bus_def example_device_def

text \<open>
  Claim C2. For every write of \<open>L \<ge> 1\<close> bytes at an address \<open>A \<ge> 0\<close> with
  \<open>A + L \<le> 256\<close>, aligned or not, over one page or several, every write transaction
  that \<open>_write\<close> puts on the bus goes to the EEPROM device, carries the address byte and
  at least one data byte, and the addresses it covers lie in one page
  \<open>[16 k, 16 (k + 1))\<close>.
\<close>

theorem write_transactions_within_page:
  assumes "coerce data = Inr d" "0 \<le> A" "1 \<le> length d" "A + int (length d) \<le> 256"
    and "Write dev msg \<in> set (drop (length (log b)) (log (snd (priv_write self A data b))))"
  shows "dev = eeprom_device self \<and> msg \<noteq> [] \<and> tl msg \<noteq> [] \<and>
         (\<exists>k. 16 * k \<le> unat (hd msg) \<and> unat (hd msg) + length (tl msg) \<le> 16 * (k + 1))"
proof -
  have "Write dev msg \<in> set (chunks_events self (cells b (eeprom_device self)) (chunks_from A d))"
    using assms(5) priv_write_log [OF assms(1) assms(3) assms(2) assms(4)] by simp
  then obtain a c where dev: "dev = eeprom_device self"
    and ac: "(a, c) \<in> set (chunks_from A d)" and msg: "msg = word_of_int a # c"
    using chunks_events_Write by blast
  from chunks_from_good [OF ac]
  have g: "c \<noteq> []" "a mod 16 + int (length c) \<le> 16" "A \<le> a"
    "a + int (length c) \<le> A + int (length d)" by simp_all
  have a0: "0 \<le> a" using g assms by simp
  have a1: "a < 256" using g assms by (cases c) auto
  have u: "unat (word_of_int a :: byte) = nat a"
    using pointer_to_bytes1 [OF a0 a1] by (simp add: pointer_def)
  define q where "q = nat a div 16"
  define r where "r = nat a mod 16"
  have "int r = a mod 16" using a0 by (simp add: r_def zmod_int)
  then have r: "r + length c \<le> 16" using g(2) by linarith
  have qr: "nat a = 16 * q + r" by (simp add: q_def r_def)
  have "16 * q \<le> nat a \<and> nat a + length c \<le> 16 * (q + 1)"
    unfolding qr using r by simp
  then have "\<exists>k. 16 * k \<le> nat a \<and> nat a + length c \<le> 16 * (k + 1)" by blast
  then show ?thesis using dev msg g(1) u by simp
qed

theorem write_transactions_within_page_witness:
  "Write 0x54 [16,7,8,9,10,11,12,13,14,15,16,17,18,19,20]
     \<in> set (log (snd (priv_write example_device 10
                (PBytes [1,2,3,4,5,6,7,8,9,10,11,12,13,14,15,16,17,18,19,20]) blank_bus))) \<and>
   (\<exists>k. 16 * k \<le> unat (16 :: byte) \<and> unat (16 :: byte) + 14 \<le> 16 * (k + 1))"
proof -
  have ev: "log (snd (priv_write example_device 10
                (PBytes [1,2,3,4,5,6,7,8,9,10,11,12,13,14,15,16,17,18,19,20]) blank_bus)) =
     [WriteThenReadinto 0x54 [10] 6, Write 0x54 [10,1,2,3,4,5,6], Sleep,
      WriteThenReadinto 0x54 [16] 14,
      Write 0x54 [16,7,8,9,10,11,12,13,14,15,16,17,18,19,20], Sleep]"
    by (simp add: write_evals bus_evals)
  have h: "Write 0x54 [16,7,8,9,10,11,12,13,14,15,16,17,18,19,20]
     \<in> set (drop (length (log blank_bus)) (log (snd (priv_write example_device 10
                (PBytes [1,2,3,4,5,6,7,8,9,10,11,12,13,14,15,16,17,18,19,20]) blank_bus))))"
    unfolding ev by (simp add: blank_bus_def)
  have c: "coerce (PBytes [1,2,3,4,5,6,7,8,9,10,11,12,13,14,15,16,17,18,19,20])
             = Inr [1,2,3,4,5,6,7,8,9,10,11,12,13,14,15,16,17,18,19,20]"
    by (simp add: coerce_def)
  from write_transactions_within_page [OF c _ _ _ h]
  show ?thesis unfolding ev by simp
qed

section \<open>Writing the same bytes again\<close>

lemma chunks_events_match:
  "0 \<le> a \<Longrightarrow> map m [nat a ..< nat a + length d] = d \<Longrightarrow>
   chunks_events self m (chunks_from a d) =
     map (\<lambda>(a, c). read_event self a (length c)) (chunks_from a d)"
proof (induction "length d" arbitrary: a d rule: less_induct)
  case less
  show ?case
  proof (cases "d = []")
    case True
    then show ?thesis by simp
  next
    case False
    from chunks_from_step [OF False, of a] obtain n where
      n: "0 < n" "n \<le> length d" and
      eq: "chunks_from a d = (a, take n d) # chunks_from (a + int n) (drop n d)" by blast
    have len: "length (take n d) = n" using n by simp
    have "take n (map m [nat a ..< nat a + length d]) = take n d"
      using less.prems(2) by simp
    then have hd: "map m [nat a ..< nat a + length (take n d)] = take n d"
      unfolding len using n by (simp add: take_map)
    have "drop n (map m [nat a ..< nat a + length d]) = drop n d"
      using less.prems(2) by simp
    then have "map m [nat a + n ..< nat a + length d] = drop n d"
      by (simp add: drop_map add.commute)
    then have tl: "map m [nat (a + int n) ..< nat (a + int n) + length (drop n d)] = drop n d"
      using less.prems(1) n by (simp add: nat_add_distrib)
    have lt: "length (drop n d) < length d" using n False by simp
    have a': "0 \<le> a + int n" using less.prems(1) by simp
    have pe: "page_events self m a (take n d) = [read_event self a (length (take n d))]"
      using hd by (simp add: page_events_def)
    have ow: "overwrite m (nat a) (take n d) = m"
      using hd by (rule overwrite_same)
    show ?thesis
      unfolding eq using less.hyps [OF lt a' tl] pe ow by simp
  qed
qed

lemma priv_write_page_match:
  assumes "0 \<le> a" "1 \<le> length c" "a + int (length c) \<le> 256"
    and "map (cells b (eeprom_device self)) [nat a ..< nat a + length c] = c"
  shows "priv_write_page self a c b =
           (Inr (), b\<lparr>log := log b @ [read_event self a (length c)]\<rparr>)"
  using assms by (simp add: priv_write_page_def does_data_match_ok)

text \<open>
  Claim C3. For every write of \<open>L \<ge> 1\<close> bytes at an address \<open>A \<ge> 0\<close> with
  \<open>A + L \<le> 256\<close>: the write succeeds; writing the same payload to the same address
  again succeeds, leaves the memory as it is, and puts on the bus exactly one comparison
  read per page-write, no write transaction and no delay. A page-write whose comparison
  read returns the payload only adds that read to the bus log.
\<close>

theorem rewrite_issues_no_write:
  assumes "coerce data = Inr d" "0 \<le> A" "1 \<le> length d" "A + int (length d) \<le> 256"
  shows "fst (priv_write self A data b) = Inr () \<and>
         fst (priv_write self A data (snd (priv_write self A data b))) = Inr () \<and>
         cells (snd (priv_write self A data (snd (priv_write self A data b))))
           = cells (snd (priv_write self A data b)) \<and>
         drop (length (log (snd (priv_write self A data b))))
              (log (snd (priv_write self A data (snd (priv_write self A data b)))))
           = map (\<lambda>(a, c). WriteThenReadinto (eeprom_device self) [word_of_int a] (length c))
               (page_calls A data) \<and>
         (\<forall>a c b'. 0 \<le> a \<and> 1 \<le> length c \<and> a + int (length c) \<le> 256 \<and>
                    map (cells b' (eeprom_device self)) [nat a ..< nat a + length c] = c \<longrightarrow>
            priv_write_page self a c b' =
              (Inr (), b'\<lparr>log := log b' @
                 [WriteThenReadinto (eeprom_device self) [word_of_int a] (length c)]\<rparr>))"
proof -
  define dev where "dev = eeprom_device self"
  define m1 where "m1 = overwrite (cells b dev) (nat A) d"
  define b1 where "b1 = b\<lparr>cells := (cells b)(dev := m1),
                           log := log b @ chunks_events self (cells b dev) (chunks_from A d)\<rparr>"
  have w1: "priv_write self A data b = (Inr (), b1)"
    unfolding b1_def m1_def dev_def using assms by (intro priv_write_ok) simp_all
  have c1: "cells b1 dev = m1" by (simp add: b1_def)
  have rd: "map m1 [nat A ..< nat A + length d] = d"
    unfolding m1_def by (rule read_overwrite)
  have same: "overwrite m1 (nat A) d = m1" using rd by (rule overwrite_same)
  have w2: "priv_write self A data b1 =
     (Inr (), b1\<lparr>cells := (cells b1)(eeprom_device self :=
                              overwrite (cells b1 (eeprom_device self)) (nat A) d),
                  log := log b1 @ chunks_events self (cells b1 (eeprom_device self))
                                   (chunks_from A d)\<rparr>)"
    using assms by (intro priv_write_ok) simp_all
  have ev: "chunks_events self m1 (chunks_from A d) =
              map (\<lambda>(a, c). read_event self a (length c)) (chunks_from A d)"
    using assms(2) rd by (rule chunks_events_match)
  have pc: "page_calls A data = chunks_from A d"
    using assms by (intro page_calls_chunks) simp_all
  have re: "read_event self = (\<lambda>a n. WriteThenReadinto (eeprom_device self) [word_of_int a] n)"
    by (simp add: read_event_def fun_eq_iff)
  have page: "\<forall>a c b'. 0 \<le> a \<and> 1 \<le> length c \<and> a + int (length c) \<le> 256 \<and>
                    map (cells b' (eeprom_device self)) [nat a ..< nat a + length c] = c \<longrightarrow>
            priv_write_page self a c b' =
              (Inr (), b'\<lparr>log := log b' @
                 [WriteThenReadinto (eeprom_device self) [word_of_int a] (length c)]\<rparr>)"
    using priv_write_page_match [of _ _ _ self] by (simp add: read_event_def)
  have "cells (snd (priv_write self A data b1)) = cells b1"
    unfolding w2 using c1 same by (simp add: dev_def [symmetric] fun_upd_idem_iff)
  moreover have "drop (length (log b1)) (log (snd (priv_write self A data b1)))
           = map (\<lambda>(a, c). WriteThenReadinto (eeprom_device self) [word_of_int a] (length c))
               (page_calls A data)"
    unfolding w2 pc using c1 ev by (simp add: dev_def [symmetric] re)
  moreover have "fst (priv_write self A data b1) = Inr ()" unfolding w2 by simp
  ultimately show ?thesis using page unfolding w1 by simp
qed

theorem rewrite_issues_no_write_witness:
  "drop (length (log (snd (priv_write example_device 10
                (PBytes [1,2,3,4,5,6,7,8,9,10,11,12,13,14,15,16,17,18,19,20]) blank_bus))))
     (log (snd (priv_write example_device 10
                 (PBytes [1,2,3,4,5,6,7,8,9,10,11,12,13,14,15,16,17,18,19,20])
                 (snd (priv_write example_device 10
                        (PBytes [1,2,3,4,5,6,7,8,9,10,11,12,13,14,15,16,17,18,19,20])
                        blank_bus))))) =
     [WriteThenReadinto 0x54 [10] 6, WriteThenReadinto 0x54 [16] 14]"
proof -
  let ?p = "PBytes [1,2,3,4,5,6,7,8,9,10,11,12,13,14,15,16,17,18,19,20]"
  have pc: "page_calls 10 ?p = [(10, [1,2,3,4,5,6]), (16, [7,8,9,10,11,12,13,14,15,16,17,18,19,20])]"
    by (simp add: write_evals)
  have c: "coerce ?p = Inr [1,2,3,4,5,6,7,8,9,10,11,12,13,14,15,16,17,18,19,20]"
    by (simp add: coerce_def)
  show ?thesis
    using rewrite_issues_no_write [OF c, of 10 example_device blank_bus]
    unfolding pc by (simp add: example_device_def)
qed

section \<open>Writing and reading back\<close>

lemma setitem_slice:
  assumes "0 \<le> s" "s < 256" "stop = None \<or> (\<exists>e. stop = Some e \<and> 0 \<le> e \<and> e < 256)"
  shows "setitem self (SliceIndex (Some s) stop) data b = priv_write self s data b"
  using assms by (auto simp: setitem_def EEPROM_LENGTH_def)

lemma getitem_slice:
  assumes "0 \<le> s" "s < 256" "stop = None \<or> (\<exists>e. stop = Some e \<and> 0 \<le> e \<and> e < 256)"
  shows "getitem self (SliceIndex (Some s) stop) b =
           priv_read self s ((case stop of None \<Rightarrow> 256 | Some e \<Rightarrow> e) - s) b"
  using assms by (auto simp: getitem_def EEPROM_LENGTH_def)

lemma read_back:
  assumes "0 \<le> s" "1 \<le> length d" "s + int (length d) \<le> 256"
    and "cells b (eeprom_device self) = overwrite m (nat s) d"
  shows "fst (priv_read self s (int (length d)) b) =
           Inr (if int (length d) = 1 then RInt (uint (hd d)) else RBytes d)"
proof -
  have rd: "map (cells b (eeprom_device self)) [nat s ..< nat s + length d] = d"
    unfolding assms(4) by (rule read_overwrite)
  show ?thesis
  proof (cases "length d = 1")
    case True
    then obtain x where d: "d = [x]" by (cases d) auto
    have "cells b (eeprom_device self) (nat s) = x"
      using rd unfolding d by simp
    then show ?thesis using assms(1,3) unfolding d by (simp add: priv_read_ok)
  next
    case False
    then have "1 < int (length d)" using assms(2) by simp
    then show ?thesis using assms(1,2,3) rd by (simp add: priv_read_ok)
  qed
qed

text \<open>
  Claim C1, as the code has it. For every range \<open>[s, e)\<close> with \<open>0 \<le> s < e \<le> 256\<close> and every
  byte sequence \<open>d\<close> of length \<open>e - s\<close>, \<open>_write(s, d)\<close> succeeds and \<open>_read(s, e - s)\<close>
  afterwards returns \<open>d\<close>: as a byte sequence when \<open>e - s > 1\<close>, as the integer value of
  its only byte when \<open>e - s = 1\<close>. The same holds through \<open>__setitem__\<close> and
  \<open>__getitem__\<close> with the slice \<open>s:e\<close> when \<open>e < 256\<close> and the slice \<open>s:\<close> when \<open>e = 256\<close>.
\<close>

theorem write_then_read_roundtrip:
  assumes "0 \<le> s" "s < e" "e \<le> 256" "int (length d) = e - s"
  shows "fst (priv_write self s (PBytes d) b) = Inr () \<and>
         fst (priv_read self s (e - s) (snd (priv_write self s (PBytes d) b)))
           = Inr (if e - s = 1 then RInt (uint (hd d)) else RBytes d) \<and>
         fst (setitem self (SliceIndex (Some s) (if e = 256 then None else Some e)) (PBytes d) b)
           = Inr () \<and>
         fst (getitem self (SliceIndex (Some s) (if e = 256 then None else Some e))
                (snd (setitem self (SliceIndex (Some s) (if e = 256 then None else Some e))
                        (PBytes d) b)))
           = Inr (if e - s = 1 then RInt (uint (hd d)) else RBytes d)"
proof -
  have c: "coerce (PBytes d) = Inr d" by (simp add: coerce_def)
  have l: "1 \<le> length d" using assms by simp
  have f: "s + int (length d) \<le> 256" using assms by simp
  note w = priv_write_ok [OF c l assms(1) f, of self b]
  have r: "fst (priv_read self s (int (length d)) (snd (priv_write self s (PBytes d) b))) =
           Inr (if int (length d) = 1 then RInt (uint (hd d)) else RBytes d)"
    by (rule read_back [OF assms(1) l f]) (simp add: w)
  have st: "(if e = 256 then None else Some e) = None \<or>
            (\<exists>e'. (if e = 256 then None else Some e) = Some e' \<and> 0 \<le> e' \<and> e' < 256)"
    using assms by auto
  have s256: "s < 256" using assms by simp
  have len: "(case (if e = 256 then None else Some e) of None \<Rightarrow> 256 | Some e \<Rightarrow> e) - s = e - s"
    by simp
  show ?thesis
    unfolding setitem_slice [OF assms(1) s256 st] getitem_slice [OF assms(1) s256 st] len
    using r w unfolding assms(4) by simp
qed

theorem write_then_read_roundtrip_witness:
  "fst (priv_read example_device 100 5
          (snd (priv_write example_device 100 (PBytes [6,7,8,9,10]) blank_bus)))
     = Inr (RBytes [6,7,8,9,10])"
  using write_then_read_roundtrip [of 100 105 "[6,7,8,9,10]" example_device blank_bus]
  by simp

text \<open>
  Claim C1 as stated fails for a range of one byte, where the read returns an integer
  and not the sequence that was written, and for the empty range, where the write
  raises \<open>IndexError\<close>.
\<close>

theorem roundtrip_fails_for_short_ranges:
  "fst (priv_read example_device 0 1 (snd (priv_write example_device 0 (PBytes [7]) blank_bus)))
     = Inr (RInt 7) \<and>
   fst (getitem example_device (SliceIndex (Some 0) (Some 1))
          (snd (setitem example_device (SliceIndex (Some 0) (Some 1)) (PBytes [7]) blank_bus)))
     = Inr (RInt 7) \<and>
   fst (priv_write example_device 0 (PBytes []) blank_bus) = Inl IndexError \<and>
   fst (priv_read example_device 0 0 blank_bus) = Inl IndexError"
  by (simp add: write_evals bus_evals setitem_def getitem_def)

section \<open>Twenty bytes at address 10\<close>

lemma chunks_20_at_10:
  assumes "length d = 20"
  shows "chunks_from 10 d = [(10, take 6 d), (16, drop 6 d)]"
proof -
  have d: "d \<noteq> []" using assms by auto
  have d6: "drop 6 d \<noteq> []" using assms by simp
  have s1: "chunks_from 10 d = (10, take 6 d) # chunks_from 16 (drop 6 d)"
    using d assms by (subst chunks_from.simps) (simp add: Let_def)
  have s2: "chunks_from 16 (drop 6 d) = [(16, drop 6 d)]"
    using d6 assms by (subst chunks_from.simps) (simp add: Let_def)
  show ?thesis unfolding s1 s2 ..
qed

text \<open>
  Claim C4, as the code has it. Writing 20 bytes at address 10 issues exactly two
  page-writes, in order: the first 6 bytes at address 10 (addresses 10 to 15) and the
  remaining 14 bytes at address 16 (addresses 16 to 29). On the bus each page-write is
  a comparison read, followed by a write transaction and the delay when the bytes differ.
\<close>

theorem write_20_at_10_two_pages:
  assumes "length d = 20"
  shows "fst (write_body record_page 10 (PBytes d) []) = Inr () \<and>
         page_calls 10 (PBytes d) = [(10, take 6 d), (16, drop 6 d)] \<and>
         log (snd (priv_write self 10 (PBytes d) b)) =
           log b @ page_events self (cells b (eeprom_device self)) 10 (take 6 d)
                 @ page_events self (overwrite (cells b (eeprom_device self)) 10 (take 6 d))
                     16 (drop 6 d)"
proof -
  have c: "coerce (PBytes d) = Inr d" by (simp add: coerce_def)
  have l: "1 \<le> length d" "(10::int) + int (length d) \<le> 256" using assms by simp_all
  note pc = page_calls_chunks [OF c l]
  note w = priv_write_ok [OF c l(1) _ l(2), of self b]
  show ?thesis
    unfolding pc using w by (simp add: chunks_20_at_10 [OF assms])
qed

theorem write_20_at_10_two_pages_witness:
  "page_calls 10 (PBytes [1,2,3,4,5,6,7,8,9,10,11,12,13,14,15,16,17,18,19,20]) =
     [(10, [1,2,3,4,5,6]), (16, [7,8,9,10,11,12,13,14,15,16,17,18,19,20])]"
  using write_20_at_10_two_pages [of "[1,2,3,4,5,6,7,8,9,10,11,12,13,14,15,16,17,18,19,20]"]
  by simp

text \<open>
  Claim C4 as stated fails: there are two page-writes, not three, and the second one
  carries 14 bytes, not 16.
\<close>

theorem write_20_at_10_not_three_pages:
  "length (page_calls 10 (PBytes [1,2,3,4,5,6,7,8,9,10,11,12,13,14,15,16,17,18,19,20])) = 2 \<and>
   log (snd (priv_write example_device 10
               (PBytes [1,2,3,4,5,6,7,8,9,10,11,12,13,14,15,16,17,18,19,20]) blank_bus)) =
     [WriteThenReadinto 0x54 [10] 6, Write 0x54 [10,1,2,3,4,5,6], Sleep,
      WriteThenReadinto 0x54 [16] 14,
      Write 0x54 [16,7,8,9,10,11,12,13,14,15,16,17,18,19,20], Sleep]"
  by (simp add: write_evals bus_evals)

section \<open>Construction and the identity block\<close>

lemma extends_log_refl: "extends_log dev b b"
  by (simp add: extends_log_def)

lemma extends_log_append:
  "list_all (targets dev) evs \<Longrightarrow> log b' = log b @ evs \<Longrightarrow> extends_log dev b b'"
  by (simp add: extends_log_def)

lemma extends_log_trans:
  assumes "extends_log dev b1 b2" "extends_log dev b2 b3"
  shows "extends_log dev b1 b3"
proof -
  obtain e1 where e1: "log b2 = log b1 @ e1" "list_all (targets dev) e1"
    using assms(1) unfolding extends_log_def by (metis append_take_drop_id)
  obtain e2 where e2: "log b3 = log b2 @ e2" "list_all (targets dev) e2"
    using assms(2) unfolding extends_log_def by (metis append_take_drop_id)
  have "log b3 = log b1 @ (e1 @ e2)" using e1 e2 by simp
  moreover have "list_all (targets dev) (e1 @ e2)" using e1 e2 by simp
  ultimately show ?thesis by (rule extends_log_append [rotated])
qed

lemma priv_read_extends: "extends_log (eeprom_device self) b (snd (priv_read self a n b))"
  by (auto simp: priv_read_def write_then_readinto_def extends_log_def Let_def
           split: sum.splits list.splits)

lemma does_data_match_extends:
  "extends_log (eeprom_device self) b (snd (does_data_match self a d b))"
proof -
  have "snd (does_data_match self a d b) = snd (priv_read self a (int (length d)) b)"
    by (auto simp: does_data_match_def split: prod.splits sum.splits rvalue.splits)
  then show ?thesis by (simp add: priv_read_extends)
qed

lemma priv_write_page_extends:
  "extends_log (eeprom_device self) b (snd (priv_write_page self a d b))"
proof -
  define b1 where "b1 = snd (does_data_match self a d b)"
  have e1: "extends_log (eeprom_device self) b b1"
    unfolding b1_def by (rule does_data_match_extends)
  have "extends_log (eeprom_device self) b1 (snd (priv_write_page self a d b))"
    by (cases "does_data_match self a d b")
       (auto simp: priv_write_page_def b1_def extends_log_def sleep_def i2c_write_def
             split: sum.splits list.splits)
  with e1 show ?thesis by (rule extends_log_trans)
qed

lemma write_loop_keeps:
  assumes "\<And>a d s. R s (snd (wp a d s))"
    and "\<And>s. R s s" and "\<And>s1 s2 s3. R s1 s2 \<Longrightarrow> R s2 s3 \<Longrightarrow> R s1 s3"
  shows "R s (snd (write_loop wp i stop cur data s))"
  using assms
proof (induction wp i stop cur data s rule: write_loop.induct)
  case (1 wp i stop cur data s)
  note step = "1.prems"(1) and refl = "1.prems"(2) and trans = "1.prems"(3)
  show ?case
  proof (cases "i < stop")
    case False
    then show ?thesis by (subst write_loop.simps) (simp add: refl)
  next
    case True
    obtain r s1 where w: "wp cur (py_slice data (Some i) (Some (i + PAGE_SIZE))) s = (r, s1)"
      by (cases "wp cur (py_slice data (Some i) (Some (i + PAGE_SIZE))) s")
    have r1: "R s s1"
      using step [of s cur "py_slice data (Some i) (Some (i + PAGE_SIZE))"]
      unfolding w snd_conv .
    show ?thesis
    proof (cases r)
      case (Inl e)
      show ?thesis
        by (subst write_loop.simps) (simp add: True w Inl r1)
    next
      case (Inr u)
      have "R s1 (snd (write_loop wp (i + PAGE_SIZE) stop (cur + PAGE_SIZE) data s1))"
        using "1.IH" [OF True w [symmetric] Inr] step refl trans by blast
      with r1 have "R s (snd (write_loop wp (i + PAGE_SIZE) stop (cur + PAGE_SIZE) data s1))"
        by (rule trans)
      then show ?thesis
        by (subst write_loop.simps) (simp add: True w Inr)
    qed
  qed
qed

lemma write_body_keeps:
  assumes step: "\<And>a d s. R s (snd (wp a d s))"
    and refl: "\<And>s. R s s" and trans: "\<And>s1 s2 s3. R s1 s2 \<Longrightarrow> R s2 s3 \<Longrightarrow> R s1 s3"
  shows "R s (snd (write_body wp a data s))"
proof -
  have loop: "R s1 (snd (write_loop wp i stop cur d s1))" for i stop cur d s1
    using step refl trans by (rule write_loop_keeps)
  have first: "R s (snd (if c then (case wp x y s of (Inl e, s') \<Rightarrow> (Inl e, s')
                                    | (Inr u, s') \<Rightarrow> (Inr (g u), s'))
                         else (Inr z, s)))" for c x y g and z :: int
    using step [of s x y] by (auto simp: refl split: prod.splits sum.splits)
  have mid: "R s1 (snd (if c then write_loop wp i stop cur d s1 else (Inr cur, s1)))"
    for c i stop cur d s1
    by (simp add: loop refl)
  have last: "R s2 (snd (if c then wp x y s2 else (Inr (), s2)))" for c x y s2
    by (simp add: step refl)
  show ?thesis
  proof (cases "coerce data")
    case (Inl e)
    then show ?thesis by (simp add: write_body_def refl)
  next
    case (Inr d)
    show ?thesis
    proof (cases "int (length d) + a > EEPROM_LENGTH")
      case True
      then show ?thesis using Inr by (simp add: write_body_def refl)
    next
      case False
      obtain off tp rem where cnt:
        "(if length d > 1
                    then (let total_pages = int (length d) div PAGE_SIZE;
                              remaining_bytes = int (length d) mod PAGE_SIZE;
                              offset = PAGE_SIZE - (a mod PAGE_SIZE);
                              offset = (if offset = 16 then 0 else offset);
                              remaining_bytes = remaining_bytes - offset
                          in (offset, total_pages, remaining_bytes))
                    else (0, 0, 1)) = (off, tp, rem)"
        by (metis prod_cases3)
      define r1 where "r1 = (if off > 0
                      then (case wp a (py_slice d (Some 0) (Some off)) s of
                              (Inl e, s') \<Rightarrow> (Inl e, s')
                            | (Inr _, s') \<Rightarrow> (Inr (a + off), s'))
                      else (Inr a, s))"
      have R1: "R s (snd r1)" unfolding r1_def by (rule first)
      have wb: "write_body wp a data s =
         (case r1 of
                  (Inl e, s1) \<Rightarrow> (Inl e, s1)
                | (Inr current_address, s1) \<Rightarrow>
                    (case (if tp > 0
                           then write_loop wp off (tp * PAGE_SIZE) current_address d s1
                           else (Inr current_address, s1)) of
                       (Inl e, s2) \<Rightarrow> (Inl e, s2)
                     | (Inr current_address, s2) \<Rightarrow>
                         if rem > 0
                         then wp current_address
                                (py_slice d (Some (off + tp * PAGE_SIZE)) None) s2
                         else (Inr (), s2)))"
        unfolding write_body_def r1_def using Inr False cnt by (simp add: Let_def)
      show ?thesis
      proof (cases r1)
        case (Pair x1 s1)
        show ?thesis
        proof (cases x1)
          case (Inl e)
          then show ?thesis using Pair R1 unfolding wb by simp
        next
          case (Inr cur)
          define r2 where "r2 = (if tp > 0
                           then write_loop wp off (tp * PAGE_SIZE) cur d s1
                           else (Inr cur, s1))"
          have R2: "R s1 (snd r2)" unfolding r2_def by (rule mid)
          obtain x2 s2 where r2: "r2 = (x2, s2)" by (cases r2)
          have R12: "R s s2" using R1 R2 Pair r2 trans by auto
          show ?thesis
          proof (cases x2)
            case (Inl e)
            then show ?thesis using Pair Inr r2 R12 unfolding wb r2_def by simp
          next
            case (Inr cur')
            have "R s2 (snd (if rem > 0
                         then wp cur' (py_slice d (Some (off + tp * PAGE_SIZE)) None) s2
                         else (Inr (), s2)))"
              by (rule last)
            with R12 have "R s (snd (if rem > 0
                         then wp cur' (py_slice d (Some (off + tp * PAGE_SIZE)) None) s2
                         else (Inr (), s2)))"
              by (rule trans)
            then show ?thesis using Pair \<open>x1 = Inr cur\<close> r2 Inr unfolding wb r2_def by simp
          qed
        qed
      qed
    qed
  qed
qed

lemma priv_write_extends:
  "extends_log (eeprom_device self) b (snd (priv_write self a data b))"
  unfolding priv_write_def
proof (rule write_body_keeps [where R = "extends_log (eeprom_device self)"])
  show "extends_log (eeprom_device self) s (snd (priv_write_page self a d s))" for a d s
    by (rule priv_write_page_extends)
  show "extends_log (eeprom_device self) s s" for s
    by (rule extends_log_refl)
  show "extends_log (eeprom_device self) s1 s3"
    if "extends_log (eeprom_device self) s1 s2" "extends_log (eeprom_device self) s2 s3"
    for s1 s2 s3
    using that by (rule extends_log_trans)
qed

lemma getitem_extends:
  "extends_log (eeprom_device self) b (snd (getitem self idx b))"
  by (auto simp: getitem_def priv_read_extends extends_log_refl
           split: index.splits option.splits sum.splits)

lemma setitem_extends:
  "extends_log (eeprom_device self) b (snd (setitem self idx data b))"
  by (auto simp: setitem_def priv_write_extends extends_log_refl
           split: index.splits option.splits sum.splits)

lemma from_bytes_big_nonneg: "0 \<le> from_bytes_big bs"
proof -
  have "0 \<le> acc \<Longrightarrow> 0 \<le> foldl (\<lambda>acc b. acc * 256 + uint (b :: byte)) acc bs" for acc
    by (induction bs arbitrary: acc) simp_all
  then show ?thesis by (simp add: from_bytes_big_def)
qed

lemma selector_addresses_differ:
  assumes "0 \<le> pins" "pins < 8"
  shows "(0x50 :: int) OR pins \<noteq> 0x58 OR pins"
proof -
  have "pins \<in> {0, 1, 2, 3, 4, 5, 6, 7}" using assms by auto
  then show ?thesis by auto
qed

lemma init_eval:
  "init pins b =
     (\<lparr>eeprom_device = 0x50 OR pins, eui_device = 0x58 OR pins,
       mac = map (cells b (0x58 OR pins)) [0x9A ..< 0xA0],
       serial_number = from_bytes_big (map (cells b (0x58 OR pins)) [0x80 ..< 0x90])\<rparr>,
      b\<lparr>log := log b @ [Probe (0x50 OR pins), Probe (0x58 OR pins),
                           WriteThenReadinto (0x58 OR pins) [0x9A] 6,
                           WriteThenReadinto (0x58 OR pins) [0x80] 16]\<rparr>)"
  by (simp add: init_def I2CDevice_def read_mac_address_def read_serial_number_def
        write_then_readinto_def EUI_LOCATION_def MAC_ADDR_LENGTH_def
        SERIAL_NUMBER_LOCATION_def SERIAL_NUMBER_LENGTH_def pointer_def Let_def)

text \<open>
  Claim C8. Construction puts exactly two write-then-read transactions on the bus, both
  at the secondary address \<open>0x58 OR address_pins\<close>, after the two probes of
  \<open>I2CDevice\<close>: one sends the offset \<open>0x9A\<close> and reads 6 bytes, which become \<open>mac\<close>
  unchanged, one sends the offset \<open>0x80\<close> and reads 16 bytes, whose unsigned big-endian
  value becomes \<open>serial_number\<close>. Afterwards every transaction of \<open>__getitem__\<close> and
  \<open>__setitem__\<close> is addressed to the primary address \<open>0x50 OR address_pins\<close>, which
  differs from the secondary one for a 3-bit selector: the identity is not read again.
\<close>

theorem init_reads_identity_once:
  "log (snd (init pins b)) =
     log b @ [Probe (0x50 OR pins), Probe (0x58 OR pins),
              WriteThenReadinto (0x58 OR pins) [0x9A] 6,
              WriteThenReadinto (0x58 OR pins) [0x80] 16] \<and>
   cells (snd (init pins b)) = cells b \<and>
   eeprom_device (fst (init pins b)) = 0x50 OR pins \<and>
   eui_device (fst (init pins b)) = 0x58 OR pins \<and>
   mac (fst (init pins b)) = map (cells b (0x58 OR pins)) [0x9A ..< 0xA0] \<and>
   serial_number (fst (init pins b)) =
     from_bytes_big (map (cells b (0x58 OR pins)) [0x80 ..< 0x90]) \<and>
   0 \<le> serial_number (fst (init pins b)) \<and>
   list_all (targets (0x50 OR pins))
     (drop (length (log b')) (log (snd (getitem (fst (init pins b)) idx b')))) \<and>
   list_all (targets (0x50 OR pins))
     (drop (length (log b')) (log (snd (setitem (fst (init pins b)) idx data b')))) \<and>
   (0 \<le> pins \<and> pins < 8 \<longrightarrow> (0x50 :: int) OR pins \<noteq> 0x58 OR pins)"
proof -
  have g: "list_all (targets (0x50 OR pins))
     (drop (length (log b')) (log (snd (getitem (fst (init pins b)) idx b'))))"
    using getitem_extends [of "fst (init pins b)" b' idx]
    by (simp add: extends_log_def init_eval)
  have s: "list_all (targets (0x50 OR pins))
     (drop (length (log b')) (log (snd (setitem (fst (init pins b)) idx data b'))))"
    using setitem_extends [of "fst (init pins b)" b' idx data]
    by (simp add: extends_log_def init_eval)
  show ?thesis
    using g s selector_addresses_differ [of pins]
    by (simp add: init_eval from_bytes_big_nonneg)
qed

theorem init_reads_identity_once_witness:
  "log (snd (init 4 blank_bus)) =
     [Probe 0x54, Probe 0x5C, WriteThenReadinto 0x5C [0x9A] 6, WriteThenReadinto 0x5C [0x80] 16] \<and>
   (0x54 :: int) \<noteq> 0x5C"
  using init_reads_identity_once [of 4 blank_bus]
  by (simp add: blank_bus_def)

section \<open>Slice bounds and integer addresses\<close>




text \<open>
  Claim C6, as the code has it. With explicit bounds that both pass their validation
  (\<open>0 \<le> bound < 256\<close>): a ranged read whose stop is less than its start is rejected with
  a \<open>ValueError\<close>, raised by the allocation of a buffer of negative length, before any
  bus transaction; a ranged write never compares the stop with the start, it is carried
  out as \<open>_write(start, data)\<close>, so with a stop less than or equal to the start it is
  neither rejected nor empty: a payload that fits is written from the start on.
\<close>

theorem stop_before_start:
  assumes "0 \<le> start" "start < 256" "0 \<le> stop" "stop < 256"
  shows "(stop < start \<longrightarrow>
            getitem self (SliceIndex (Some start) (Some stop)) b
              = (Inl (ValueError NegativeCount), b)) \<and>
         setitem self (SliceIndex (Some start) (Some stop)) data b
           = priv_write self start data b \<and>
         (coerce data = Inr d \<and> 1 \<le> length d \<and> start + int (length d) \<le> 256 \<longrightarrow>
            fst (setitem self (SliceIndex (Some start) (Some stop)) data b) = Inr () \<and>
            map (cells (snd (setitem self (SliceIndex (Some start) (Some stop)) data b))
                   (eeprom_device self)) [nat start ..< nat start + length d] = d)"
proof -
  have g: "getitem self (SliceIndex (Some start) (Some stop)) b
              = (Inl (ValueError NegativeCount), b)" if "stop < start"
    using assms that by (simp add: getitem_def priv_read_def EEPROM_LENGTH_def)
  have s: "setitem self (SliceIndex (Some start) (Some stop)) data b
           = priv_write self start data b"
    using assms by (intro setitem_slice) simp_all
  have w: "fst (priv_write self start data b) = Inr () \<and>
           map (cells (snd (priv_write self start data b)) (eeprom_device self))
             [nat start ..< nat start + length d] = d"
    if "coerce data = Inr d" "1 \<le> length d" "start + int (length d) \<le> 256"
    using that assms(1) by (simp add: priv_write_ok read_overwrite)
  show ?thesis using g w unfolding s by simp
qed

theorem stop_before_start_witness:
  "getitem example_device (SliceIndex (Some 5) (Some 3)) blank_bus
     = (Inl (ValueError NegativeCount), blank_bus) \<and>
   setitem example_device (SliceIndex (Some 5) (Some 3)) (PBytes [1, 2]) blank_bus
     = priv_write example_device 5 (PBytes [1, 2]) blank_bus \<and>
   fst (setitem example_device (SliceIndex (Some 5) (Some 3)) (PBytes [1, 2]) blank_bus) = Inr ()"
proof -
  have c: "coerce (PBytes [1, 2]) = Inr [1, 2]" by (simp add: coerce_def)
  show ?thesis
    using stop_before_start [of 5 3 example_device blank_bus "PBytes [1, 2]" "[1, 2]"] c
    by auto
qed

text \<open>
  Claim C6 as stated fails for a write: the slice \<open>5:3\<close> is accepted and two bytes are
  written at address 5, and so are they with the slice \<open>5:5\<close>.
\<close>

theorem reversed_range_write_accepted:
  "fst (setitem example_device (SliceIndex (Some 5) (Some 3)) (PBytes [1, 2]) blank_bus) = Inr () \<and>
   log (snd (setitem example_device (SliceIndex (Some 5) (Some 3)) (PBytes [1, 2]) blank_bus))
     = [WriteThenReadinto 0x54 [5] 2, Write 0x54 [5, 1, 2], Sleep] \<and>
   fst (setitem example_device (SliceIndex (Some 5) (Some 5)) (PBytes [1, 2]) blank_bus) = Inr () \<and>
   log (snd (setitem example_device (SliceIndex (Some 5) (Some 5)) (PBytes [1, 2]) blank_bus))
     = [WriteThenReadinto 0x54 [5] 2, Write 0x54 [5, 1, 2], Sleep]"
  by (simp add: write_evals bus_evals setitem_def)

text \<open>
  Claim C7 at the address \<open>-1\<close>. The check of \<open>_read\<close> and of \<open>_write\<close> only bounds
  \<open>address + length\<close> from above, so a negative address passes it, and the call fails
  in \<open>data_address.to_bytes(1, "big")\<close> with \<open>OverflowError\<close>, not with the
  \<open>ValueError\<close> that the slice branch raises for a negative start.
\<close>

theorem negative_address_raises_overflow:
  "getitem example_device (IntIndex (- 1)) blank_bus = (Inl OverflowError, blank_bus) \<and>
   setitem example_device (IntIndex (- 1)) (PInt 5) blank_bus = (Inl OverflowError, blank_bus)"
  by (simp add: write_evals bus_evals setitem_def getitem_def)

text \<open>
  Claim C10, as the code has it. For a ranged write whose start is in \<open>0..255\<close> and whose
  stop is omitted or in \<open>0..255\<close>, the stop bound has no influence: the write is carried
  out as \<open>_write(start, d)\<close>. It is rejected when \<open>start + len(d) > 256\<close>; for a payload
  of at least one byte with \<open>start + len(d) \<le> 256\<close> it succeeds, the cells
  \<open>start, \<dots>, start + len(d) - 1\<close> hold \<open>d\<close> afterwards and every other cell is unchanged,
  whether \<open>len(d)\<close> is more or less than \<open>stop - start\<close>.
\<close>

theorem stop_bound_ignored_by_write:
  assumes "0 \<le> start" "start < 256"
    and "stop = None \<or> (\<exists>e. stop = Some e \<and> 0 \<le> e \<and> e < 256)"
    and "coerce data = Inr d"
  shows "setitem self (SliceIndex (Some start) stop) data b = priv_write self start data b \<and>
         (start + int (length d) > 256 \<longrightarrow>
            setitem self (SliceIndex (Some start) stop) data b
              = (Inl (ValueError (BeyondMemoryLimit start (int (length d)))), b)) \<and>
         (1 \<le> length d \<and> start + int (length d) \<le> 256 \<longrightarrow>
            fst (setitem self (SliceIndex (Some start) stop) data b) = Inr () \<and>
            (\<forall>x. cells (snd (setitem self (SliceIndex (Some start) stop) data b))
                    (eeprom_device self) x =
                  (if nat start \<le> x \<and> x < nat start + length d then d ! (x - nat start)
                   else cells b (eeprom_device self) x)))"
proof -
  have s: "setitem self (SliceIndex (Some start) stop) data b = priv_write self start data b"
    using assms(1-3) by (rule setitem_slice)
  have big: "priv_write self start data b
              = (Inl (ValueError (BeyondMemoryLimit start (int (length d)))), b)"
    if "start + int (length d) > 256"
    using that assms(4) by (simp add: priv_write_def write_body_def EEPROM_LENGTH_def)
  have ok: "fst (priv_write self start data b) = Inr () \<and>
            (\<forall>x. cells (snd (priv_write self start data b)) (eeprom_device self) x =
                  (if nat start \<le> x \<and> x < nat start + length d then d ! (x - nat start)
                   else cells b (eeprom_device self) x))"
    if "1 \<le> length d" "start + int (length d) \<le> 256"
    using that assms(1,4) by (simp add: priv_write_ok overwrite_def)
  show ?thesis using big ok unfolding s by simp
qed

theorem stop_bound_ignored_by_write_witness:
  "setitem example_device (SliceIndex (Some 5) (Some 6)) (PBytes [1, 2, 3]) blank_bus
     = priv_write example_device 5 (PBytes [1, 2, 3]) blank_bus \<and>
   fst (setitem example_device (SliceIndex (Some 5) (Some 6)) (PBytes [1, 2, 3]) blank_bus) = Inr () \<and>
   cells (snd (setitem example_device (SliceIndex (Some 5) (Some 6)) (PBytes [1, 2, 3]) blank_bus))
     (eeprom_device example_device) 7 = 3"
proof -
  have c: "coerce (PBytes [1, 2, 3]) = Inr [1, 2, 3]" by (simp add: coerce_def)
  have st: "Some (6::int) = None \<or> (\<exists>e. Some (6::int) = Some e \<and> 0 \<le> e \<and> e < 256)" by simp
  show ?thesis
    using stop_bound_ignored_by_write [OF _ _ st c, of 5 example_device blank_bus]
    by auto
qed

text \<open>
  Claim C10 as stated fails for a stop bound that does not pass its validation: with the
  stop 256 nothing is written, with the stop 1 the same payload is written. It also
  fails for the empty payload, which is shorter than \<open>stop - start\<close> and raises
  \<open>IndexError\<close>.
\<close>

theorem explicit_stop_influences_write:
  "setitem example_device (SliceIndex (Some 0) (Some 256)) (PBytes [1, 2]) blank_bus
     = (Inl (ValueError StopBeyondLimit), blank_bus) \<and>
   fst (setitem example_device (SliceIndex (Some 0) (Some 1)) (PBytes [1, 2]) blank_bus) = Inr () \<and>
   fst (setitem example_device (SliceIndex (Some 0) (Some 5)) (PBytes []) blank_bus)
     = Inl IndexError"
  by (simp add: write_evals bus_evals setitem_def)

end
